theory Spec2Isabelle
  imports Main
begin

section \<open>The bulk object-deletion engine of pkg/awsmod/batch.go\<close>

text \<open>
  The theory embeds the batch-delete client of \<^verbatim>\<open>pkg/awsmod/batch.go\<close>: the two
  candidate iterators, the constructor \<^verbatim>\<open>NewBatchDeleteWithClient\<close>, the parity test,
  \<^verbatim>\<open>deleteBatch\<close> and \<^verbatim>\<open>BatchDelete.Delete\<close>.

  Conventions of the embedding:
  \<^item> a Go pointer that may be nil is an \<open>option\<close>; dereferencing \<open>None\<close> is a panic,
    and a panic is a value (\<open>Inl\<close>) of the function that raises it;
  \<^item> a Go value of interface type \<^verbatim>\<open>error\<close> is an \<open>error option\<close> (\<open>None\<close> is nil);
  \<^item> the remote \<^verbatim>\<open>DeleteObjects\<close> client and the \<^verbatim>\<open>After\<close> hooks are functions on an
    abstract world \<open>'w\<close>, which every function passes along and returns;
  \<^item> every function also passes along a trace, the list of the calls made to the client
    and to the hooks so far, with what each of them returned. The trace is what the
    statements about "the calls issued" speak about.
\<close>

subsection \<open>Errors\<close>

text \<open>
  Go's \<^verbatim>\<open>error\<close> values. \<open>ExternalError\<close> stands for an error made outside the
  package (by the client, a hook or an iterator); \<open>AwsErr code message orig\<close> is
  \<^verbatim>\<open>awserr.New(code, message, orig)\<close>.
\<close>

datatype error = ExternalError string | AwsErr string string "error option"

datatype panic = NilPointerDereference | IndexOutOfRange

text \<open>
  \<^verbatim>\<open>type Error struct { OrigErr error; Bucket *string; Key *string }\<close>. The fields
  \<^verbatim>\<open>Bucket\<close> and \<^verbatim>\<open>Key\<close> are \<open>ErrorBucket\<close> and \<open>ErrorKey\<close> here.
\<close>

record Error =
  OrigErr :: "error option"
  ErrorBucket :: "string option"
  ErrorKey :: "string option"

definition newError :: "error option \<Rightarrow> string option \<Rightarrow> string option \<Rightarrow> Error" where
  "newError err bucket key = \<lparr>OrigErr = err, ErrorBucket = bucket, ErrorKey = key\<rparr>"

text \<open>\<^verbatim>\<open>type BatchError struct { Errors Errors; code string; message string }\<close>\<close>

record BatchError =
  Errors :: "Error list"
  code :: string
  message :: string

definition NewBatchError :: "string \<Rightarrow> string \<Rightarrow> Error list \<Rightarrow> BatchError" where
  "NewBatchError c m err = \<lparr>Errors = err, code = c, message = m\<rparr>"

subsection \<open>The request and response types of the S3 client\<close>

text \<open>
  The fields of the SDK's \<^verbatim>\<open>s3.DeleteObjectInput\<close> that the package reads.
  \<^verbatim>\<open>RequestPayer\<close> is a string type whose zero value is the empty string.
\<close>

record DeleteObjectInput =
  Bucket :: "string option"
  Key :: "string option"
  VersionId :: "string option"
  MFA :: "string option"
  RequestPayer :: string

text \<open>\<^verbatim>\<open>s3types.ObjectIdentifier\<close>, with its fields \<^verbatim>\<open>Key\<close> and \<^verbatim>\<open>VersionId\<close>.\<close>

record ObjectIdentifier =
  IdKey :: "string option"
  IdVersionId :: "string option"

text \<open>
  \<^verbatim>\<open>s3.DeleteObjectsInput\<close>. Its fields \<^verbatim>\<open>Bucket\<close>, \<^verbatim>\<open>MFA\<close> and \<^verbatim>\<open>RequestPayer\<close> are
  \<open>InBucket\<close>, \<open>InMFA\<close> and \<open>InRequestPayer\<close> here. \<open>Delete_Objects\<close> is
  \<^verbatim>\<open>input.Delete.Objects\<close>; the pointer \<^verbatim>\<open>input.Delete\<close> is set by
  \<^verbatim>\<open>initDeleteObjectsInput\<close> and is never nil here. \<open>BypassGovernanceRetention\<close> is a
  field that the package never reads; it is the kind of field an option function of the
  caller sets.
\<close>

record DeleteObjectsInput =
  InBucket :: "string option"
  InMFA :: "string option"
  InRequestPayer :: string
  Delete_Objects :: "ObjectIdentifier list"
  BypassGovernanceRetention :: "bool option"

text \<open>
  \<^verbatim>\<open>s3types.Error\<close>, one entry of \<^verbatim>\<open>DeleteObjectsOutput.Errors\<close>, with its fields
  \<^verbatim>\<open>Key\<close>, \<^verbatim>\<open>Code\<close> and \<^verbatim>\<open>Message\<close>; \<open>ResultErrors\<close> is \<^verbatim>\<open>result.Errors\<close>.
\<close>

record S3Error =
  S3Key :: "string option"
  S3Code :: "string option"
  S3Message :: "string option"

record DeleteObjectsOutput =
  ResultErrors :: "S3Error list"

subsection \<open>Candidates, the client, and the trace\<close>

text \<open>\<^verbatim>\<open>After func() error\<close>: a closure, run for its effect on the world.\<close>

type_synonym 'w hook = "'w \<Rightarrow> error option \<times> 'w"

text \<open>\<^verbatim>\<open>type BatchDeleteObject struct { Object *s3.DeleteObjectInput; After func() error }\<close>\<close>

record 'w BatchDeleteObject =
  Object :: "DeleteObjectInput option"
  After :: "'w hook option"

text \<open>
  \<^verbatim>\<open>DeleteObjectsAPIClient\<close>: \<^verbatim>\<open>DeleteObjects\<close> returns a pointer to the output and an
  error, either of which may be nil.
\<close>

type_synonym 'w DeleteObjectsAPIClient =
  "DeleteObjectsInput \<Rightarrow> 'w \<Rightarrow> (DeleteObjectsOutput option \<times> error option) \<times> 'w"

text \<open>\<^verbatim>\<open>type BatchDelete struct { Client DeleteObjectsAPIClient; BatchSize int }\<close>\<close>

record 'w BatchDelete =
  Client :: "'w DeleteObjectsAPIClient"
  BatchSize :: int

text \<open>
  The events of a run: a call of \<^verbatim>\<open>DeleteObjects\<close> (with the request, the candidates
  \<^verbatim>\<open>deleteBatch\<close> was given with it, and the two values the client returned), a call
  of an \<^verbatim>\<open>After\<close> hook (with the candidate and what the hook returned), and the
  iterator reporting an error through \<^verbatim>\<open>Err()\<close>.
\<close>

datatype 'w event =
    CallEv DeleteObjectsInput "'w BatchDeleteObject list" "DeleteObjectsOutput option" "error option"
  | HookEv "'w BatchDeleteObject" "error option"
  | IterErrEv error

subsection \<open>NewBatchDeleteWithClient\<close>

definition DefaultBatchSize :: int where
  "DefaultBatchSize = 1000"

definition NewBatchDeleteWithClient ::
  "'w DeleteObjectsAPIClient \<Rightarrow> int \<Rightarrow> ('w BatchDelete \<Rightarrow> 'w BatchDelete) list \<Rightarrow> 'w BatchDelete" where
  "NewBatchDeleteWithClient s3client batchSize options =
     (let svc = \<lparr>Client = s3client, BatchSize = DefaultBatchSize\<rparr>;
          svc = (if batchSize \<noteq> -1 then svc\<lparr>BatchSize := batchSize\<rparr> else svc)
      in fold (\<lambda>opt svc. opt svc) options svc)"

subsection \<open>initDeleteObjectsInput and hasParity\<close>

definition initDeleteObjectsInput :: "DeleteObjectInput \<Rightarrow> DeleteObjectsInput" where
  "initDeleteObjectsInput o' =
     \<lparr>InBucket = Bucket o', InMFA = MFA o', InRequestPayer = RequestPayer o',
      Delete_Objects = [], BypassGovernanceRetention = None\<rparr>"

text \<open>
  \<^verbatim>\<open>hasParity\<close> compares the bucket, and then the MFA token, by
  \<^verbatim>\<open>if a != nil && b != nil { if *a != *b { return false } } else if a != b { return false }\<close>:
  as strings when both pointers are set, as pointers otherwise, when at least one of
  them is nil (two nil pointers are equal, a nil and a non-nil pointer are not).
  \<open>ptr_differs a b\<close> says that this statement returns false. The second argument of
  \<open>hasParity\<close> is \<^verbatim>\<open>*o2.Object\<close>; the caller dereferences.
\<close>

definition ptr_differs :: "string option \<Rightarrow> string option \<Rightarrow> bool" where
  "ptr_differs a b =
     (case (a, b) of
        (Some x, Some y) \<Rightarrow> x \<noteq> y
      | _ \<Rightarrow> a \<noteq> b)"

definition hasParity :: "DeleteObjectsInput \<Rightarrow> DeleteObjectInput \<Rightarrow> bool" where
  "hasParity o1 o2 =
     (if ptr_differs (InBucket o1) (Bucket o2) then False
      else if ptr_differs (InMFA o1) (MFA o2) then False
      else if InRequestPayer o1 \<noteq> [] \<and> RequestPayer o2 \<noteq> []
           then (if InRequestPayer o1 \<noteq> RequestPayer o2 then False else True)
      else if InRequestPayer o1 \<noteq> RequestPayer o2 then False
      else True)"

subsection \<open>deleteBatch\<close>

text \<open>
  The last loop of \<^verbatim>\<open>deleteBatch\<close> (over \<^verbatim>\<open>objects\<close>): a candidate without a hook is
  skipped; a hook is run on the world; when it returns an error, one \<open>Error\<close> is
  appended, whose bucket and key are read through \<^verbatim>\<open>object.Object\<close>, so a nil
  \<^verbatim>\<open>Object\<close> panics there (after the hook has run).
\<close>

fun runHooks ::
  "'w BatchDeleteObject list \<Rightarrow> Error list \<Rightarrow> 'w \<Rightarrow> 'w event list
     \<Rightarrow> (panic + Error list) \<times> 'w \<times> 'w event list" where
  "runHooks [] errs w tr = (Inr errs, w, tr)"
| "runHooks (object # rest) errs w tr =
     (case After object of
        None \<Rightarrow> runHooks rest errs w tr
      | Some hook \<Rightarrow>
          (case hook w of
             (None, w') \<Rightarrow> runHooks rest errs w' (tr @ [HookEv object None])
           | (Some err, w') \<Rightarrow>
               (case Object object of
                  None \<Rightarrow> (Inl NilPointerDereference, w', tr @ [HookEv object (Some err)])
                | Some oi \<Rightarrow>
                    runHooks rest (errs @ [newError (Some err) (Bucket oi) (Key oi)]) w'
                      (tr @ [HookEv object (Some err)]))))"

definition ErrDeleteBatchFailCode :: string where
  "ErrDeleteBatchFailCode = ''DeleteBatchError''"

definition errDefaultDeleteBatchMessage :: string where
  "errDefaultDeleteBatchMessage = ''failed to delete''"

text \<open>
  The body of the loop over \<^verbatim>\<open>result.Errors\<close>. The third argument of
  \<^verbatim>\<open>awserr.New\<close> is the variable \<^verbatim>\<open>err\<close> of the enclosing \<^verbatim>\<open>if\<close>, which is nil
  in this branch.
\<close>

definition perKeyError :: "DeleteObjectsInput \<Rightarrow> S3Error \<Rightarrow> Error" where
  "perKeyError input re =
     (let code = ErrDeleteBatchFailCode;
          msg = errDefaultDeleteBatchMessage;
          msg = (case S3Message re of Some m \<Rightarrow> m | None \<Rightarrow> msg);
          code = (case S3Code re of Some c \<Rightarrow> c | None \<Rightarrow> code)
      in newError (Some (AwsErr code msg None)) (InBucket input) (S3Key re))"

text \<open>
  \<^verbatim>\<open>deleteBatch\<close>: one call of the client, then the hooks. When the client returns
  a nil error and a nil result, \<^verbatim>\<open>result.Errors\<close> panics.
\<close>

definition deleteBatch ::
  "'w BatchDelete \<Rightarrow> DeleteObjectsInput \<Rightarrow> 'w BatchDeleteObject list \<Rightarrow> 'w \<Rightarrow> 'w event list
     \<Rightarrow> (panic + Error list) \<times> 'w \<times> 'w event list" where
  "deleteBatch d input objects w tr =
     (case Client d input w of
        ((result, err), w1) \<Rightarrow>
          (let tr1 = tr @ [CallEv input objects result err] in
           case err of
             Some e \<Rightarrow>
               runHooks objects
                 (map (\<lambda>oi. newError (Some e) (InBucket input) (IdKey oi)) (Delete_Objects input))
                 w1 tr1
           | None \<Rightarrow>
               (case result of
                  None \<Rightarrow> (Inl NilPointerDereference, w1, tr1)
                | Some res \<Rightarrow>
                    runHooks objects
                      (if length (ResultErrors res) > 0
                       then map (perKeyError input) (ResultErrors res) else [])
                      w1 tr1)))"

subsection \<open>The loop of Delete\<close>

text \<open>The local variables of \<^verbatim>\<open>Delete\<close>, with the world and the trace.\<close>

record 'w vars =
  errs :: "Error list"
  objects :: "'w BatchDeleteObject list"
  input :: "DeleteObjectsInput option"
  world :: 'w
  trace :: "'w event list"

definition initial :: "'w \<Rightarrow> 'w vars" where
  "initial w = \<lparr>errs = [], objects = [], input = None, world = w, trace = []\<rparr>"

text \<open>The option functions \<^verbatim>\<open>opts\<close>, applied in order to the request.\<close>

definition apply_opts ::
  "(DeleteObjectsInput \<Rightarrow> DeleteObjectsInput) list \<Rightarrow> DeleteObjectsInput \<Rightarrow> DeleteObjectsInput" where
  "apply_opts opts inp = fold (\<lambda>opt i. opt i) opts inp"

definition objectIdentifier :: "DeleteObjectInput \<Rightarrow> ObjectIdentifier" where
  "objectIdentifier oi = \<lparr>IdKey = Key oi, IdVersionId = VersionId oi\<rparr>"

text \<open>
  One iteration of the loop, for the candidate \<open>o'\<close> that \<^verbatim>\<open>iter.DeleteObject()\<close>
  returned. A panic carries the world and the trace it leaves behind.
\<close>

type_synonym 'w crash = "panic \<times> 'w \<times> 'w event list"

definition step ::
  "'w BatchDelete \<Rightarrow> (DeleteObjectsInput \<Rightarrow> DeleteObjectsInput) list \<Rightarrow> 'w BatchDeleteObject
     \<Rightarrow> 'w vars \<Rightarrow> 'w crash + 'w vars" where
  "step d opts o' v =
     (case Object o' of
        None \<Rightarrow> Inl (NilPointerDereference, world v, trace v)
      | Some oi \<Rightarrow>
          (let input1 = (case input v of None \<Rightarrow> initDeleteObjectsInput oi | Some i \<Rightarrow> i);
               input2 = apply_opts opts input1;
               parity = hasParity input2 oi;
               input3 = (if parity
                         then input2\<lparr>Delete_Objects := Delete_Objects input2 @ [objectIdentifier oi]\<rparr>
                         else input2);
               objects1 = (if parity then objects v @ [o'] else objects v)
           in if int (length (Delete_Objects input3)) = BatchSize d \<or> \<not> parity
              then (case deleteBatch d input3 objects1 (world v) (trace v) of
                      (Inl p, w, tr) \<Rightarrow> Inl (p, w, tr)
                    | (Inr err, w, tr) \<Rightarrow>
                        (if \<not> parity
                         then (let input4 = apply_opts opts (initDeleteObjectsInput oi)
                               in Inr \<lparr>errs = errs v @ err, objects = [o'],
                                       input = Some (input4\<lparr>Delete_Objects :=
                                                 Delete_Objects input4 @ [objectIdentifier oi]\<rparr>),
                                       world = w, trace = tr\<rparr>)
                         else Inr \<lparr>errs = errs v @ err, objects = [], input = None,
                                   world = w, trace = tr\<rparr>))
              else Inr (v\<lparr>objects := objects1, input := Some input3\<rparr>)))"

text \<open>
  \<^verbatim>\<open>BatchDeleteIterator\<close>, an interface of three methods, as three functions on the
  state \<open>'i\<close> of the iterator, a state of its own that the client and the hooks do not
  touch. \<^verbatim>\<open>DeleteObject\<close> may panic (both iterators of the package index a slice in
  it).
\<close>

record ('i, 'w) BatchDeleteIterator =
  Next :: "'i \<Rightarrow> bool \<times> 'i"
  Err :: "'i \<Rightarrow> error option"
  DeleteObject :: "'i \<Rightarrow> panic + 'w BatchDeleteObject"

text \<open>
  The loop \<^verbatim>\<open>for iter.Next() { ... }\<close>. An iterator may answer true for ever, so the
  loop is a partial function: \<open>None\<close> is a run that does not end.
\<close>

partial_function (option) Delete_loop ::
  "'w BatchDelete \<Rightarrow> (DeleteObjectsInput \<Rightarrow> DeleteObjectsInput) list \<Rightarrow> ('i, 'w) BatchDeleteIterator
     \<Rightarrow> 'i \<Rightarrow> 'w vars \<Rightarrow> ('w crash + 'w vars \<times> 'i) option" where
  [code]: "Delete_loop d opts iter s v =
     (case Next iter s of
        (ok, s') \<Rightarrow>
          (if \<not> ok then Some (Inr (v, s'))
           else (case DeleteObject iter s' of
                   Inl p \<Rightarrow> Some (Inl (p, world v, trace v))
                 | Inr o' \<Rightarrow>
                     (case step d opts o' v of
                        Inl c \<Rightarrow> Some (Inl c)
                      | Inr v' \<Rightarrow> Delete_loop d opts iter s' v'))))"

text \<open>
  What \<^verbatim>\<open>Delete\<close> does after the loop: the error of the iterator, the batch that is
  still open, and the value returned (\<open>None\<close> is nil).
\<close>

definition Delete_finish ::
  "'w BatchDelete \<Rightarrow> error option \<Rightarrow> 'w vars \<Rightarrow> (panic + BatchError option) \<times> 'w \<times> 'w event list" where
  "Delete_finish d iter_err v =
     (let (errs1, tr1) = (case iter_err of
                            Some e \<Rightarrow> (errs v @ [newError (Some e) None None], trace v @ [IterErrEv e])
                          | None \<Rightarrow> (errs v, trace v));
          r = (case input v of
                 None \<Rightarrow> (Inr errs1, world v, tr1)
               | Some i \<Rightarrow>
                   (if length (Delete_Objects i) > 0
                    then (case deleteBatch d i (objects v) (world v) tr1 of
                            (Inl p, w, tr) \<Rightarrow> (Inl p, w, tr)
                          | (Inr err, w, tr) \<Rightarrow> (Inr (errs1 @ err), w, tr))
                    else (Inr errs1, world v, tr1)))
      in case r of
           (Inl p, w, tr) \<Rightarrow> (Inl p, w, tr)
         | (Inr errs2, w, tr) \<Rightarrow>
             (if length errs2 > 0
              then (Inr (Some (NewBatchError ''BatchedDeleteIncomplete''
                                 ''some objects have failed to be deleted.'' errs2)), w, tr)
              else (Inr None, w, tr)))"

text \<open>
  \<^verbatim>\<open>func (d *BatchDelete) Delete(ctx, iter, opts...) error\<close>. The result is \<open>None\<close>
  when the run does not end; otherwise the panic or the returned error, with the world
  and the trace of the whole run.
\<close>

definition Delete ::
  "'w BatchDelete \<Rightarrow> ('i, 'w) BatchDeleteIterator \<Rightarrow> 'i
     \<Rightarrow> (DeleteObjectsInput \<Rightarrow> DeleteObjectsInput) list \<Rightarrow> 'w
     \<Rightarrow> ((panic + BatchError option) \<times> 'w \<times> 'w event list) option" where
  "Delete d iter s opts w =
     (case Delete_loop d opts iter s (initial w) of
        None \<Rightarrow> None
      | Some (Inl (p, w', tr)) \<Rightarrow> Some (Inl p, w', tr)
      | Some (Inr (v, s')) \<Rightarrow> Some (Delete_finish d (Err iter s') v))"

subsection \<open>The two iterators of the package\<close>

text \<open>\<^verbatim>\<open>type DeleteObjectsIterator struct { Objects []BatchDeleteObject; index int; inc bool }\<close>\<close>

record 'w DeleteObjectsIterator =
  Objects :: "'w BatchDeleteObject list"
  index :: int
  inc :: bool

definition DeleteObjectsIterator_Next :: "'w DeleteObjectsIterator \<Rightarrow> bool \<times> 'w DeleteObjectsIterator" where
  "DeleteObjectsIterator_Next iter =
     (let iter' = (if inc iter then iter\<lparr>index := index iter + 1\<rparr> else iter\<lparr>inc := True\<rparr>)
      in (index iter' < int (length (Objects iter')), iter'))"

definition DeleteObjectsIterator_Err :: "'w DeleteObjectsIterator \<Rightarrow> error option" where
  "DeleteObjectsIterator_Err iter = None"

definition DeleteObjectsIterator_DeleteObject ::
  "'w DeleteObjectsIterator \<Rightarrow> panic + 'w BatchDeleteObject" where
  "DeleteObjectsIterator_DeleteObject iter =
     (if 0 \<le> index iter \<and> index iter < int (length (Objects iter))
      then Inr (Objects iter ! nat (index iter))
      else Inl IndexOutOfRange)"

definition DeleteObjectsIterator_impl ::
  "('w DeleteObjectsIterator, 'w) BatchDeleteIterator" where
  "DeleteObjectsIterator_impl =
     \<lparr>Next = DeleteObjectsIterator_Next, Err = DeleteObjectsIterator_Err,
      DeleteObject = DeleteObjectsIterator_DeleteObject\<rparr>"

text \<open>
  The SDK's \<^verbatim>\<open>s3.ListObjectsV2Paginator\<close> is not part of the package. It is a
  parameter here: a state \<open>'p\<close> with the two methods the iterator calls.
  \<^verbatim>\<open>NextPage\<close> returns either an error or the \<^verbatim>\<open>Contents\<close> of the page (the keys of
  its objects).
\<close>

record 'p Paginator =
  HasMorePages :: "'p \<Rightarrow> bool"
  NextPage :: "'p \<Rightarrow> (error + string option list) \<times> 'p"

text \<open>
  \<^verbatim>\<open>type DeleteListIterator struct { Bucket *string; Paginator *s3.ListObjectsV2Paginator;
  objects []s3types.Object; err error }\<close>. The fields \<^verbatim>\<open>Bucket\<close>, \<^verbatim>\<open>Paginator\<close> and
  \<^verbatim>\<open>objects\<close> are \<open>ListBucket\<close>, \<open>PaginatorState\<close> and \<open>listed\<close> here. An object of the
  listing is represented by its \<^verbatim>\<open>Key\<close>, the only field read.
\<close>

record 'p DeleteListIterator =
  ListBucket :: "string option"
  PaginatorState :: 'p
  listed :: "string option list"
  err :: "error option"

definition DeleteListIterator_Next ::
  "'p Paginator \<Rightarrow> 'p DeleteListIterator \<Rightarrow> bool \<times> 'p DeleteListIterator" where
  "DeleteListIterator_Next pg iter =
     (let iter1 = (if length (listed iter) > 0 then iter\<lparr>listed := tl (listed iter)\<rparr> else iter)
      in if length (listed iter) > 0 \<and> length (listed iter1) > 0 then (True, iter1)
         else if \<not> HasMorePages pg (PaginatorState iter1) then (False, iter1)
         else (case NextPage pg (PaginatorState iter1) of
                 (Inl e, p') \<Rightarrow> (False, iter1\<lparr>PaginatorState := p', err := Some e\<rparr>)
               | (Inr page, p') \<Rightarrow>
                   (length page > 0, iter1\<lparr>PaginatorState := p', listed := page\<rparr>)))"

definition DeleteListIterator_Err :: "'p DeleteListIterator \<Rightarrow> error option" where
  "DeleteListIterator_Err iter = err iter"

definition DeleteListIterator_DeleteObject ::
  "'p DeleteListIterator \<Rightarrow> panic + 'w BatchDeleteObject" where
  "DeleteListIterator_DeleteObject iter =
     (case listed iter of
        [] \<Rightarrow> Inl IndexOutOfRange
      | k # _ \<Rightarrow>
          Inr \<lparr>Object = Some \<lparr>Bucket = ListBucket iter, Key = k, VersionId = None,
                               MFA = None, RequestPayer = []\<rparr>,
               After = None\<rparr>)"

definition DeleteListIterator_impl ::
  "'p Paginator \<Rightarrow> ('p DeleteListIterator, 'w) BatchDeleteIterator" where
  "DeleteListIterator_impl pg =
     \<lparr>Next = DeleteListIterator_Next pg, Err = DeleteListIterator_Err,
      DeleteObject = DeleteListIterator_DeleteObject\<rparr>"

text \<open>
  Modelled from the spec: the remote listing capability (section 6 of the
  specification), which answers each call with the items of a page and is called until
  no further page exists. The SDK's paginator over it is not among the sources. Here
  the answers of the remote are a fixed script, one per call of \<^verbatim>\<open>NextPage\<close>, each
  an error or the contents of a page: more pages exist while the script is not used up;
  a failed fetch leaves the script as it is. It stands for the paginator in the
  examples.
\<close>

definition scripted :: "(error + string option list) list Paginator" where
  "scripted =
     \<lparr>HasMorePages = (\<lambda>ps. ps \<noteq> []),
      NextPage = (\<lambda>ps. case ps of
                     [] \<Rightarrow> (Inl (ExternalError ''no more pages available''), ps)
                   | Inl e # _ \<Rightarrow> (Inl e, ps)
                   | Inr page # rest \<Rightarrow> (Inr page, rest))\<rparr>"

subsection \<open>Notions used in the statements\<close>

text \<open>The loop body applied to a list of candidates, one after the other.\<close>

fun steps ::
  "'w BatchDelete \<Rightarrow> (DeleteObjectsInput \<Rightarrow> DeleteObjectsInput) list \<Rightarrow> 'w BatchDeleteObject list
     \<Rightarrow> 'w vars \<Rightarrow> 'w crash + 'w vars" where
  "steps d opts [] v = Inr v"
| "steps d opts (o' # os) v =
     (case step d opts o' v of Inl c \<Rightarrow> Inl c | Inr v' \<Rightarrow> steps d opts os v')"

text \<open>
  \<open>yields iter s os s'\<close>: driven from the state \<open>s\<close>, the iterator hands out the
  candidates \<open>os\<close>, its \<^verbatim>\<open>Next\<close> then answers false, and it is left in the state \<open>s'\<close>.
\<close>

fun yields ::
  "('i, 'w) BatchDeleteIterator \<Rightarrow> 'i \<Rightarrow> 'w BatchDeleteObject list \<Rightarrow> 'i \<Rightarrow> bool" where
  "yields iter s [] s' = (Next iter s = (False, s'))"
| "yields iter s (o' # os) s' =
     (case Next iter s of
        (ok, s1) \<Rightarrow> ok \<and> DeleteObject iter s1 = Inr o' \<and> yields iter s1 os s')"

text \<open>The \<^verbatim>\<open>DeleteObjects\<close> calls of a trace: each request with its candidates.\<close>

fun calls :: "'w event list \<Rightarrow> (DeleteObjectsInput \<times> 'w BatchDeleteObject list) list" where
  "calls [] = []"
| "calls (CallEv i os r e # tr) = (i, os) # calls tr"
| "calls (HookEv o' r # tr) = calls tr"
| "calls (IterErrEv e # tr) = calls tr"

text \<open>The hook calls of a trace: each candidate with what its hook returned.\<close>

fun hooks :: "'w event list \<Rightarrow> ('w BatchDeleteObject \<times> error option) list" where
  "hooks [] = []"
| "hooks (CallEv i os r e # tr) = hooks tr"
| "hooks (HookEv o' r # tr) = (o', r) # hooks tr"
| "hooks (IterErrEv e # tr) = hooks tr"

text \<open>
  What the hooks of the candidates \<open>os\<close> return when they are run in the order of \<open>os\<close>
  from the world \<open>w\<close>, each on the world that the hook before it left: every candidate
  that has a hook, with the error that its hook returns there.
\<close>

fun hook_returns ::
  "'w BatchDeleteObject list \<Rightarrow> 'w \<Rightarrow> ('w BatchDeleteObject \<times> error option) list" where
  "hook_returns [] w = []"
| "hook_returns (o' # os) w =
     (case After o' of
        None \<Rightarrow> hook_returns os w
      | Some h \<Rightarrow> (o', fst (h w)) # hook_returns os (snd (h w)))"

text \<open>
  The errors that the returns \<open>rs\<close> of hooks call for: one \<open>Error\<close> for each hook that
  returned an error, with that error and the bucket and the key of its candidate.
\<close>

definition hook_errors :: "('w BatchDeleteObject \<times> error option) list \<Rightarrow> Error list" where
  "hook_errors rs =
     concat (map (\<lambda>(o', r). case r of
                    None \<Rightarrow> []
                  | Some e \<Rightarrow>
                      (case Object o' of
                         None \<Rightarrow> []
                       | Some oi \<Rightarrow> [\<lparr>OrigErr = Some e, ErrorBucket = Bucket oi,
                                      ErrorKey = Key oi\<rparr>])) rs)"

text \<open>
  An option function that leaves alone the fields of the request that the batching
  reads or writes: the bucket, the MFA token, the request payer and the members.
\<close>

definition keeps_batch :: "(DeleteObjectsInput \<Rightarrow> DeleteObjectsInput) \<Rightarrow> bool" where
  "keeps_batch opt \<longleftrightarrow>
     (\<forall>i. InBucket (opt i) = InBucket i \<and> InMFA (opt i) = InMFA i \<and>
          InRequestPayer (opt i) = InRequestPayer i \<and> Delete_Objects (opt i) = Delete_Objects i)"

text \<open>A client that never returns a nil result together with a nil error.\<close>

definition answers :: "'w DeleteObjectsAPIClient \<Rightarrow> bool" where
  "answers c \<longleftrightarrow> (\<forall>i w. fst (c i w) \<noteq> (None, None))"

text \<open>Candidates that all carry the bucket \<open>b\<close>, the MFA token \<open>m\<close> and the payer \<open>rp\<close>.\<close>

definition uniform ::
  "string option \<Rightarrow> string option \<Rightarrow> string \<Rightarrow> 'w BatchDeleteObject list \<Rightarrow> bool" where
  "uniform b m rp os \<longleftrightarrow>
     (\<forall>o' \<in> set os. \<exists>oi. Object o' = Some oi \<and> Bucket oi = b \<and> MFA oi = m \<and> RequestPayer oi = rp)"

text \<open>
  The batch invariant of a call with the request \<open>i\<close> for the candidates \<open>os\<close> under
  the batch size \<open>B\<close>: the members of the request are the identifiers of the
  candidates, in order; every candidate has parity with the request (its bucket, MFA
  token and payer are those of the request); there is at least one member and there
  are at most \<open>B\<close>.
\<close>

definition batch_invariant ::
  "int \<Rightarrow> DeleteObjectsInput \<Rightarrow> 'w BatchDeleteObject list \<Rightarrow> bool" where
  "batch_invariant B i os \<longleftrightarrow>
     map Some (Delete_Objects i) = map (\<lambda>o'. map_option objectIdentifier (Object o')) os \<and>
     (\<forall>o' \<in> set os. \<exists>oi. Object o' = Some oi \<and> hasParity i oi \<and>
        Bucket oi = InBucket i \<and> MFA oi = InMFA i \<and> RequestPayer oi = InRequestPayer i) \<and>
     1 \<le> length (Delete_Objects i) \<and> int (length (Delete_Objects i)) \<le> B"

text \<open>
  The failures a trace calls for, in the words of the specification: a call that fails
  as a whole gives one \<open>Error\<close> per member of the request, with the bucket of the
  request, the key of the member and the error of the call; a call that succeeds gives
  one \<open>Error\<close> per key reported as failing, with the reported code and message or the
  generic pair in their place; a hook that fails gives one \<open>Error\<close> with the bucket and
  key of its candidate; an error of the iterator gives one \<open>Error\<close> without bucket and
  key.
\<close>

fun failure :: "'w event \<Rightarrow> Error list" where
  "failure (CallEv i os r (Some e)) =
     map (\<lambda>m. \<lparr>OrigErr = Some e, ErrorBucket = InBucket i, ErrorKey = IdKey m\<rparr>) (Delete_Objects i)"
| "failure (CallEv i os (Some res) None) =
     map (\<lambda>k. \<lparr>OrigErr = Some (AwsErr (case S3Code k of None \<Rightarrow> ''DeleteBatchError'' | Some c \<Rightarrow> c)
                                     (case S3Message k of None \<Rightarrow> ''failed to delete'' | Some m \<Rightarrow> m)
                                     None),
                ErrorBucket = InBucket i, ErrorKey = S3Key k\<rparr>) (ResultErrors res)"
| "failure (CallEv i os None None) = []"
| "failure (HookEv o' None) = []"
| "failure (HookEv o' (Some e)) =
     (case Object o' of
        None \<Rightarrow> []
      | Some oi \<Rightarrow> [\<lparr>OrigErr = Some e, ErrorBucket = Bucket oi, ErrorKey = Key oi\<rparr>])"
| "failure (IterErrEv e) = [\<lparr>OrigErr = Some e, ErrorBucket = None, ErrorKey = None\<rparr>]"

definition failures :: "'w event list \<Rightarrow> Error list" where
  "failures tr = concat (map failure tr)"

text \<open>
  \<open>extend es tr r\<close> puts \<open>es\<close> in front of the errors and \<open>tr\<close> in front of the
  trace of a result \<open>r\<close> of \<open>runHooks\<close>: the accumulators of \<open>runHooks\<close> are only appended to.
\<close>

definition extend ::
  "Error list \<Rightarrow> 'w event list \<Rightarrow> (panic + Error list) \<times> 'w \<times> 'w event list
     \<Rightarrow> (panic + Error list) \<times> 'w \<times> 'w event list" where
  "extend es tr r =
     (case r of (Inl p, w, t) \<Rightarrow> (Inl p, w, tr @ t) | (Inr es', w, t) \<Rightarrow> (Inr (es @ es'), w, tr @ t))"

text \<open>The request that a candidate without parity opens (lines 350 to 359).\<close>

definition seed ::
  "(DeleteObjectsInput \<Rightarrow> DeleteObjectsInput) list \<Rightarrow> DeleteObjectInput \<Rightarrow> DeleteObjectsInput" where
  "seed opts oi =
     (apply_opts opts (initDeleteObjectsInput oi))
       \<lparr>Delete_Objects := Delete_Objects (apply_opts opts (initDeleteObjectsInput oi)) @ [objectIdentifier oi]\<rparr>"

text \<open>
  The invariant of the loop of \<^verbatim>\<open>Delete\<close> behind the batch invariant: there is no open
  request and no candidate waits, or the open request and the waiting candidates
  satisfy the batch invariant with room for one more member; and every call made so far
  satisfies the batch invariant.
\<close>

definition open_batch_ok :: "int \<Rightarrow> 'w vars \<Rightarrow> bool" where
  "open_batch_ok B v \<longleftrightarrow>
     (case input v of None \<Rightarrow> objects v = [] | Some i \<Rightarrow> batch_invariant (B - 1) i (objects v))"

definition calls_ok :: "int \<Rightarrow> 'w event list \<Rightarrow> bool" where
  "calls_ok B tr \<longleftrightarrow> list_all (\<lambda>(i, os). batch_invariant B i os) (calls tr)"

text \<open>Hooks that return nil in every world.\<close>

definition hooks_succeed :: "'w BatchDeleteObject list \<Rightarrow> bool" where
  "hooks_succeed os \<longleftrightarrow> (\<forall>o' \<in> set os. \<forall>h. After o' = Some h \<longrightarrow> (\<forall>w. fst (h w) = None))"

text \<open>
  \<open>covered os v\<close>: the candidates \<open>os\<close> taken so far are those of the calls made, in
  order, followed by those that wait in the open batch; the hooks run so far are those
  of the candidates of the calls made, in order; an open request has a member; no
  waiting candidate has a nil \<^verbatim>\<open>Object\<close>.
\<close>

definition covered :: "'w BatchDeleteObject list \<Rightarrow> 'w vars \<Rightarrow> bool" where
  "covered os v \<longleftrightarrow>
     concat (map snd (calls (trace v))) @ objects v = os \<and>
     map fst (hooks (trace v)) =
       filter (\<lambda>o'. After o' \<noteq> None) (concat (map snd (calls (trace v)))) \<and>
     (input v = None \<longrightarrow> objects v = []) \<and>
     (\<forall>i. input v = Some i \<longrightarrow> Delete_Objects i \<noteq> []) \<and>
     (\<forall>o' \<in> set (objects v). Object o' \<noteq> None)"

text \<open>
  \<open>open_uniform b m rp k v\<close>: in a run over candidates that all carry \<open>b\<close>, \<open>m\<close> and
  \<open>rp\<close>, the open batch has \<open>k\<close> members: with none there is no open request; otherwise
  the open request carries \<open>b\<close>, \<open>m\<close> and \<open>rp\<close> and has \<open>k\<close> members. \<open>k\<close> candidates wait,
  none with a nil \<^verbatim>\<open>Object\<close>.
\<close>

definition open_uniform ::
  "string option \<Rightarrow> string option \<Rightarrow> string \<Rightarrow> nat \<Rightarrow> 'w vars \<Rightarrow> bool" where
  "open_uniform b m rp k v \<longleftrightarrow>
     (case input v of
        None \<Rightarrow> k = 0
      | Some i \<Rightarrow> InBucket i = b \<and> InMFA i = m \<and> InRequestPayer i = rp \<and>
                  length (Delete_Objects i) = k \<and> 0 < k) \<and>
     length (objects v) = k \<and> (\<forall>x \<in> set (objects v). Object x \<noteq> None)"

text \<open>The number of members of each \<^verbatim>\<open>DeleteObjects\<close> call of a trace, in order.\<close>

definition call_sizes :: "'w event list \<Rightarrow> nat list" where
  "call_sizes tr = map (\<lambda>(i, os). length (Delete_Objects i)) (calls tr)"

text \<open>The candidates that the paginated iterator makes of the keys \<open>ks\<close> listed in the bucket \<open>b\<close>.\<close>

definition listed_candidates :: "string option \<Rightarrow> string option list \<Rightarrow> 'w BatchDeleteObject list" where
  "listed_candidates b ks =
     map (\<lambda>k. \<lparr>Object = Some \<lparr>Bucket = b, Key = k, VersionId = None, MFA = None, RequestPayer = []\<rparr>,
                After = None\<rparr>) ks"

subsection \<open>Example data\<close>

text \<open>
  The world of the examples counts the calls of the client. \<open>candidate b k\<close> is the
  object \<open>k\<close> of the bucket \<open>b\<close>, without a hook; \<open>succeeding\<close> is a client whose
  calls all succeed with no failing key, \<open>failing\<close> one whose calls all fail.
\<close>

definition candidate :: "string \<Rightarrow> string \<Rightarrow> nat BatchDeleteObject" where
  "candidate b k =
     \<lparr>Object = Some \<lparr>Bucket = Some b, Key = Some k, VersionId = None, MFA = None, RequestPayer = []\<rparr>,
      After = None\<rparr>"

definition succeeding :: "nat DeleteObjectsAPIClient" where
  "succeeding i w = ((Some \<lparr>ResultErrors = []\<rparr>, None), Suc w)"

definition failing :: "nat DeleteObjectsAPIClient" where
  "failing i w = ((None, Some (ExternalError ''timeout'')), Suc w)"

text \<open>
  Candidates with a hook, a hook that succeeds and one that fails (each adds 10 to the
  world), a client that reports two failing keys, and the request for the keys \<open>ks\<close>
  of the bucket \<open>b\<close>.
\<close>

definition hooked :: "string \<Rightarrow> string \<Rightarrow> nat hook \<Rightarrow> nat BatchDeleteObject" where
  "hooked b k h = (candidate b k)\<lparr>After := Some h\<rparr>"

definition passing_hook :: "nat hook" where
  "passing_hook w = (None, w + 10)"

definition failing_hook :: "nat hook" where
  "failing_hook w = (Some (ExternalError ''hook failed''), w + 10)"

definition reporting :: "nat DeleteObjectsAPIClient" where
  "reporting i w =
     ((Some \<lparr>ResultErrors =
               [\<lparr>S3Key = Some ''1'', S3Code = None, S3Message = None\<rparr>,
                \<lparr>S3Key = Some ''2'', S3Code = Some ''AccessDenied'',
                 S3Message = Some ''Access Denied''\<rparr>]\<rparr>, None), Suc w)"

definition request :: "string \<Rightarrow> string list \<Rightarrow> DeleteObjectsInput" where
  "request b ks =
     \<lparr>InBucket = Some b, InMFA = None, InRequestPayer = [],
      Delete_Objects = map (\<lambda>k. \<lparr>IdKey = Some k, IdVersionId = None\<rparr>) ks,
      BypassGovernanceRetention = None\<rparr>"

text \<open>The paginated iterator over the scripted paginator, in the world of the examples.\<close>

definition scripted_iterator ::
  "((error + string option list) list DeleteListIterator, nat) BatchDeleteIterator" where
  "scripted_iterator = DeleteListIterator_impl scripted"

section \<open>Properties\<close>

subsection \<open>The parity test\<close>

lemma ptr_differs_iff: "ptr_differs p q \<longleftrightarrow> p \<noteq> q"
  by (cases p; cases q) (simp_all add: ptr_differs_def)

lemma hasParity_iff:
  "hasParity o1 o2 \<longleftrightarrow>
     InBucket o1 = Bucket o2 \<and> InMFA o1 = MFA o2 \<and> InRequestPayer o1 = RequestPayer o2"
  by (auto simp: hasParity_def ptr_differs_iff)

lemma hasParity_init: "hasParity (initDeleteObjectsInput oi) oi"
  by (simp add: hasParity_iff initDeleteObjectsInput_def)

subsection \<open>Traces and option functions\<close>

lemma calls_append: "calls (xs @ ys) = calls xs @ calls ys"
  by (induction xs rule: calls.induct) simp_all

lemma hooks_append: "hooks (xs @ ys) = hooks xs @ hooks ys"
  by (induction xs rule: hooks.induct) simp_all

lemma call_sizes_append: "call_sizes (xs @ ys) = call_sizes xs @ call_sizes ys"
  by (simp add: call_sizes_def calls_append)

lemma failures_append: "failures (xs @ ys) = failures xs @ failures ys"
  by (simp add: failures_def)

lemma failures_Nil: "failures [] = []"
  by (simp add: failures_def)

lemma failures_Cons: "failures (x # xs) = failure x @ failures xs"
  by (simp add: failures_def)

lemma apply_opts_Nil: "apply_opts [] i = i"
  by (simp add: apply_opts_def)

lemma apply_opts_keeps:
  assumes "\<forall>opt \<in> set opts. keeps_batch opt"
  shows "InBucket (apply_opts opts i) = InBucket i"
    and "InMFA (apply_opts opts i) = InMFA i"
    and "InRequestPayer (apply_opts opts i) = InRequestPayer i"
    and "Delete_Objects (apply_opts opts i) = Delete_Objects i"
  using assms
  by (induction opts arbitrary: i; simp add: apply_opts_def keeps_batch_def)+

lemma hasParity_apply_opts:
  "\<forall>opt \<in> set opts. keeps_batch opt \<Longrightarrow> hasParity (apply_opts opts i) oi = hasParity i oi"
  by (simp add: hasParity_iff apply_opts_keeps)

subsection \<open>The hook loop\<close>

lemma extend_extend: "extend es tr (extend es' tr' r) = extend (es @ es') (tr @ tr') r"
  by (auto simp: extend_def split: prod.splits sum.splits)

lemma runHooks_acc: "runHooks os es w tr = extend es tr (runHooks os [] w [])"
proof (induction os arbitrary: es w tr)
  case Nil
  show ?case by (simp add: extend_def)
next
  case (Cons a os)
  show ?case
  proof (cases "After a")
    case None
    then show ?thesis using Cons.IH [of es w tr] by simp
  next
    case (Some h)
    obtain r w' where hw: "h w = (r, w')" by (cases "h w")
    show ?thesis
    proof (cases r)
      case None
      show ?thesis
        using Some hw None Cons.IH [of es w' "tr @ [HookEv a None]"]
          Cons.IH [of "[]" w' "[HookEv a None]"]
        by (simp add: extend_extend)
    next
      case (Some e)
      note e = this
      show ?thesis
      proof (cases "Object a")
        case None
        then show ?thesis using \<open>After a = Some h\<close> hw e by (simp add: extend_def)
      next
        case (Some oi)
        show ?thesis
          using \<open>After a = Some h\<close> hw e Some
            Cons.IH [of "es @ [newError (Some e) (Bucket oi) (Key oi)]" w' "tr @ [HookEv a (Some e)]"]
            Cons.IH [of "[newError (Some e) (Bucket oi) (Key oi)]" w' "[HookEv a (Some e)]"]
          by (simp add: extend_extend)
      qed
    qed
  qed
qed

lemma runHooks_Cons:
  "runHooks (a # os) [] w [] =
     (case After a of
        None \<Rightarrow> runHooks os [] w []
      | Some h \<Rightarrow>
          (case h w of
             (None, w') \<Rightarrow> extend [] [HookEv a None] (runHooks os [] w' [])
           | (Some e, w') \<Rightarrow>
               (case Object a of
                  None \<Rightarrow> (Inl NilPointerDereference, w', [HookEv a (Some e)])
                | Some oi \<Rightarrow>
                    extend [newError (Some e) (Bucket oi) (Key oi)] [HookEv a (Some e)]
                      (runHooks os [] w' []))))"
  using runHooks_acc [of os _ _ "[HookEv a _]"]
  by (simp split: option.splits prod.splits)

declare runHooks.simps(2) [simp del]

lemma runHooks_calls: "runHooks os [] w [] = (r, w', t) \<Longrightarrow> calls t = []"
  by (induction os arbitrary: w r w' t)
     (auto simp: runHooks_Cons extend_def split: option.splits prod.splits sum.splits)

lemma runHooks_only_hooks: "runHooks os [] w [] = (r, w', t) \<Longrightarrow> length (hooks t) = length t"
  by (induction os arbitrary: w r w' t)
     (auto simp: runHooks_Cons extend_def split: option.splits prod.splits sum.splits)

lemma runHooks_failures: "runHooks os [] w [] = (Inr es, w', t) \<Longrightarrow> failures t = es"
  by (induction os arbitrary: w es w' t)
     (auto simp: runHooks_Cons extend_def failures_Nil failures_Cons newError_def
           split: option.splits prod.splits sum.splits)

lemma runHooks_order:
  "runHooks os [] w [] = (Inr es, w', t) \<Longrightarrow> map fst (hooks t) = filter (\<lambda>o'. After o' \<noteq> None) os"
  by (induction os arbitrary: w es w' t)
     (auto simp: runHooks_Cons extend_def split: option.splits prod.splits sum.splits)

lemma runHooks_world:
  "runHooks os [] w [] = (Inr es, w', t) \<Longrightarrow>
     w' = fold (\<lambda>o' w. case After o' of None \<Rightarrow> w | Some h \<Rightarrow> snd (h w)) os w"
  by (induction os arbitrary: w es w' t)
     (auto simp: runHooks_Cons extend_def split: option.splits prod.splits sum.splits)

lemma hooks_HookEv: "hooks (map (\<lambda>(o', r). HookEv o' r) rs) = rs"
  by (induction rs) auto

lemma hook_errors_length:
  "\<forall>(o', r) \<in> set rs. Object o' \<noteq> None \<Longrightarrow>
     length (hook_errors rs) = length (filter (\<lambda>(o', r). r \<noteq> None) rs)"
  by (induction rs) (auto simp: hook_errors_def split: option.splits)

lemma runHooks_hook_returns:
  "runHooks os [] w [] = (Inr es, w', t) \<Longrightarrow>
     t = map (\<lambda>(o', r). HookEv o' r) (hook_returns os w) \<and>
     es = hook_errors (hook_returns os w)"
  by (induction os arbitrary: w es w' t)
     (auto simp: runHooks_Cons extend_def newError_def hook_errors_def
           split: option.splits prod.splits sum.splits)

lemma runHooks_returns:
  "\<forall>o' \<in> set os. Object o' \<noteq> None \<Longrightarrow> \<exists>es w' t. runHooks os [] w [] = (Inr es, w', t)"
proof (induction os arbitrary: w)
  case Nil
  show ?case by simp
next
  case (Cons a os)
  then have IH: "\<And>w. \<exists>es w' t. runHooks os [] w [] = (Inr es, w', t)" by simp
  from Cons.prems obtain oi where oi: "Object a = Some oi" by auto
  show ?case
  proof (cases "After a")
    case None
    then show ?thesis using IH [of w] by (simp add: runHooks_Cons)
  next
    case (Some h)
    obtain r w1 where hw: "h w = (r, w1)" by (cases "h w")
    obtain es w' t where "runHooks os [] w1 [] = (Inr es, w', t)" using IH [of w1] by blast
    then show ?thesis using Some hw oi
      by (cases r) (simp_all add: runHooks_Cons extend_def)
  qed
qed

lemma runHooks_quiet:
  "\<forall>o' \<in> set os. \<forall>h. After o' = Some h \<longrightarrow> (\<forall>w. fst (h w) = None) \<Longrightarrow>
     fst (runHooks os [] w []) = Inr []"
proof (induction os arbitrary: w)
  case Nil
  show ?case by simp
next
  case (Cons a os)
  then have IH: "\<And>w. fst (runHooks os [] w []) = Inr []" by simp
  show ?case
  proof (cases "After a")
    case None
    then show ?thesis using IH [of w] by (simp add: runHooks_Cons)
  next
    case (Some h)
    obtain r w1 where hw: "h w = (r, w1)" by (cases "h w")
    have "fst (h w) = None" using Cons.prems Some by simp
    then have r: "r = None" using hw by simp
    show ?thesis using Some hw r IH [of w1]
      by (cases "runHooks os [] w1 []") (simp add: runHooks_Cons extend_def)
  qed
qed

subsection \<open>One batch\<close>

lemma deleteBatch_unfold:
  assumes "Client d inp w = ((res, er), w1)"
  shows "deleteBatch d inp os w tr =
           (if res = None \<and> er = None
            then (Inl NilPointerDereference, w1, tr @ [CallEv inp os res er])
            else extend (failure (CallEv inp os res er)) (tr @ [CallEv inp os res er])
                   (runHooks os [] w1 []))"
proof (cases er)
  case (Some e)
  show ?thesis
    unfolding deleteBatch_def assms Some
    by (simp add: runHooks_acc [of os "map f xs" for f xs] newError_def)
next
  case None
  show ?thesis
  proof (cases res)
    case None
    then show ?thesis unfolding deleteBatch_def assms \<open>er = None\<close> by simp
  next
    case (Some r)
    have "(if 0 < length (ResultErrors r) then map (perKeyError inp) (ResultErrors r) else [])
            = failure (CallEv inp os (Some r) None)"
      by (simp add: perKeyError_def newError_def ErrDeleteBatchFailCode_def
            errDefaultDeleteBatchMessage_def Let_def split: option.splits)
    then show ?thesis
      unfolding deleteBatch_def assms \<open>er = None\<close> Some
      using runHooks_acc [of os "failure (CallEv inp os (Some r) None)" w1 "tr @ [CallEv inp os (Some r) None]"]
      by simp
  qed
qed


lemma deleteBatch_calls:
  assumes "deleteBatch d inp os w tr = (r, w', tr')"
  shows "calls tr' = calls tr @ [(inp, os)]"
proof -
  obtain res er w1 where c: "Client d inp w = ((res, er), w1)"
    by (metis surj_pair)
  obtain r2 w2 t2 where h: "runHooks os [] w1 [] = (r2, w2, t2)"
    by (metis surj_pair)
  from runHooks_calls [OF h] have "calls t2 = []" .
  then show ?thesis
    using assms unfolding deleteBatch_unfold [OF c] h
    by (auto simp: extend_def calls_append split: if_splits sum.splits)
qed

lemma deleteBatch_failures:
  assumes "deleteBatch d inp os w tr = (Inr es, w', tr')"
  shows "failures tr' = failures tr @ es"
proof -
  obtain res er w1 where c: "Client d inp w = ((res, er), w1)"
    by (metis surj_pair)
  obtain r2 w2 t2 where h: "runHooks os [] w1 [] = (r2, w2, t2)"
    by (metis surj_pair)
  show ?thesis
  proof (cases r2)
    case (Inl p)
    then show ?thesis
      using assms unfolding deleteBatch_unfold [OF c] h
      by (auto simp: extend_def split: if_splits)
  next
    case (Inr es2)
    from runHooks_failures [OF h [unfolded Inr]] have "failures t2 = es2" .
    then show ?thesis
      using assms Inr unfolding deleteBatch_unfold [OF c] h
      by (auto simp: extend_def failures_append failures_Cons failures_Nil split: if_splits)
  qed
qed

lemma deleteBatch_hooks_order:
  assumes "deleteBatch d inp os w tr = (Inr es, w', tr')"
  shows "map fst (hooks tr') = map fst (hooks tr) @ filter (\<lambda>o'. After o' \<noteq> None) os"
proof -
  obtain res er w1 where c: "Client d inp w = ((res, er), w1)"
    by (metis surj_pair)
  obtain r2 w2 t2 where h: "runHooks os [] w1 [] = (r2, w2, t2)"
    by (metis surj_pair)
  show ?thesis
  proof (cases r2)
    case (Inl p)
    then show ?thesis
      using assms unfolding deleteBatch_unfold [OF c] h
      by (auto simp: extend_def split: if_splits)
  next
    case (Inr es2)
    from runHooks_order [OF h [unfolded Inr]]
    have "map fst (hooks t2) = filter (\<lambda>o'. After o' \<noteq> None) os" .
    then show ?thesis
      using assms Inr unfolding deleteBatch_unfold [OF c] h
      by (auto simp: extend_def hooks_append split: if_splits)
  qed
qed

lemma deleteBatch_returns:
  assumes "answers (Client d)" and "\<forall>o' \<in> set os. Object o' \<noteq> None"
  shows "\<exists>es w' tr'. deleteBatch d inp os w tr = (Inr es, w', tr')"
proof -
  obtain res er w1 where c: "Client d inp w = ((res, er), w1)"
    by (metis surj_pair)
  from assms(1) c have ne: "\<not> (res = None \<and> er = None)"
    unfolding answers_def by (metis fst_conv)
  from runHooks_returns [OF assms(2)] obtain es2 w2 t2 where
    h: "runHooks os [] w1 [] = (Inr es2, w2, t2)" by blast
  show ?thesis
    unfolding deleteBatch_unfold [OF c] h using ne by (simp add: extend_def)
qed

lemma deleteBatch_quiet:
  assumes c: "Client d inp w = ((res, er), w1)" and ne: "\<not> (res = None \<and> er = None)"
    and q: "hooks_succeed os"
  shows "fst (deleteBatch d inp os w tr) = Inr (failure (CallEv inp os res er))"
proof -
  from q have "fst (runHooks os [] w1 []) = Inr []"
    unfolding hooks_succeed_def by (rule runHooks_quiet)
  then show ?thesis
    unfolding deleteBatch_unfold [OF c] using ne
    by (cases "runHooks os [] w1 []") (auto simp: extend_def)
qed

lemma deleteBatch_hooks:
  assumes c: "Client d inp w = ((res, er), w1)" and ne: "\<not> (res = None \<and> er = None)"
    and h: "runHooks os [] w1 [] = (Inr es, w', t)"
  shows "deleteBatch d inp os w tr =
           (Inr (failure (CallEv inp os res er) @ es), w', tr @ CallEv inp os res er # t)"
  unfolding deleteBatch_unfold [OF c] h using ne by (auto simp: extend_def)

subsection \<open>The loop and the iterators\<close>

lemma step_cases:
  obtains
    (nil) "Object o' = None" "step d opts o' v = Inl (NilPointerDereference, world v, trace v)"
  | (append) oi i2 where "Object o' = Some oi"
      "i2 = apply_opts opts (case input v of None \<Rightarrow> initDeleteObjectsInput oi | Some i \<Rightarrow> i)"
      "hasParity i2 oi" "int (length (Delete_Objects i2) + 1) \<noteq> BatchSize d"
      "step d opts o' v =
         Inr (v\<lparr>objects := objects v @ [o'],
                input := Some (i2\<lparr>Delete_Objects := Delete_Objects i2 @ [objectIdentifier oi]\<rparr>)\<rparr>)"
  | (full) oi i2 where "Object o' = Some oi"
      "i2 = apply_opts opts (case input v of None \<Rightarrow> initDeleteObjectsInput oi | Some i \<Rightarrow> i)"
      "hasParity i2 oi" "int (length (Delete_Objects i2) + 1) = BatchSize d"
      "step d opts o' v =
         (case deleteBatch d (i2\<lparr>Delete_Objects := Delete_Objects i2 @ [objectIdentifier oi]\<rparr>)
                 (objects v @ [o']) (world v) (trace v) of
            (Inl p, w, tr) \<Rightarrow> Inl (p, w, tr)
          | (Inr es, w, tr) \<Rightarrow>
              Inr \<lparr>errs = errs v @ es, objects = [], input = None, world = w, trace = tr\<rparr>)"
  | (break) oi i2 where "Object o' = Some oi"
      "i2 = apply_opts opts (case input v of None \<Rightarrow> initDeleteObjectsInput oi | Some i \<Rightarrow> i)"
      "\<not> hasParity i2 oi"
      "step d opts o' v =
         (case deleteBatch d i2 (objects v) (world v) (trace v) of
            (Inl p, w, tr) \<Rightarrow> Inl (p, w, tr)
          | (Inr es, w, tr) \<Rightarrow>
              Inr \<lparr>errs = errs v @ es, objects = [o'], input = Some (seed opts oi),
                   world = w, trace = tr\<rparr>)"
proof (cases "Object o'")
  case None
  then show ?thesis using nil by (simp add: step_def)
next
  case (Some oi)
  define i2 where "i2 = apply_opts opts (case input v of None \<Rightarrow> initDeleteObjectsInput oi | Some i \<Rightarrow> i)"
  show ?thesis
  proof (cases "hasParity i2 oi")
    case False
    have "step d opts o' v =
         (case deleteBatch d i2 (objects v) (world v) (trace v) of
            (Inl p, w, tr) \<Rightarrow> Inl (p, w, tr)
          | (Inr es, w, tr) \<Rightarrow>
              Inr \<lparr>errs = errs v @ es, objects = [o'], input = Some (seed opts oi),
                   world = w, trace = tr\<rparr>)"
      using Some False unfolding step_def i2_def seed_def
      by (simp add: Let_def split: prod.splits sum.splits)
    then show ?thesis using break Some False i2_def by blast
  next
    case True
    show ?thesis
    proof (cases "int (length (Delete_Objects i2) + 1) = BatchSize d")
      case eq: True
      have "step d opts o' v =
         (case deleteBatch d (i2\<lparr>Delete_Objects := Delete_Objects i2 @ [objectIdentifier oi]\<rparr>)
                 (objects v @ [o']) (world v) (trace v) of
            (Inl p, w, tr) \<Rightarrow> Inl (p, w, tr)
          | (Inr es, w, tr) \<Rightarrow>
              Inr \<lparr>errs = errs v @ es, objects = [], input = None, world = w, trace = tr\<rparr>)"
        using Some True eq unfolding step_def i2_def
        by (simp add: Let_def split: prod.splits sum.splits)
      then show ?thesis using full Some True eq i2_def by blast
    next
      case ne: False
      have "step d opts o' v =
         Inr (v\<lparr>objects := objects v @ [o'],
                input := Some (i2\<lparr>Delete_Objects := Delete_Objects i2 @ [objectIdentifier oi]\<rparr>)\<rparr>)"
        using Some True ne unfolding step_def i2_def
        by (simp add: Let_def)
      then show ?thesis using append Some True ne i2_def by blast
    qed
  qed
qed

lemma Delete_loop_invariant:
  assumes run: "Delete_loop d opts iter s v = Some r"
    and init: "I v"
    and stp: "\<And>o' v v'. I v \<Longrightarrow> step d opts o' v = Inr v' \<Longrightarrow> I v'"
    and crash: "\<And>o' v c. I v \<Longrightarrow> step d opts o' v = Inl c \<Longrightarrow> C c"
    and pan: "\<And>v p. I v \<Longrightarrow> C (p, world v, trace v)"
  shows "case r of Inl c \<Rightarrow> C c | Inr (v', s') \<Rightarrow> I v'"
  using init stp crash pan
proof (induction d opts iter s v r rule: Delete_loop.raw_induct)
  case (1 loop d opts iter s v r)
  obtain ok s1 where nx: "Next iter s = (ok, s1)" by (cases "Next iter s")
  show ?case
  proof (cases ok)
    case False
    then show ?thesis using "1.hyps" nx "1.prems"(1) by auto
  next
    case True
    show ?thesis
    proof (cases "DeleteObject iter s1")
      case (Inl p)
      then show ?thesis using "1.hyps" nx True "1.prems"(1,4) by auto
    next
      case (Inr o')
      show ?thesis
      proof (cases "step d opts o' v")
        case (Inl c)
        have "C c" using "1.prems"(1) Inl by (rule "1.prems"(3))
        moreover have "r = Inl c" using "1.hyps" nx True Inr Inl by simp
        ultimately show ?thesis by simp
      next
        case st: (Inr v')
        have rec: "loop d opts iter s1 v' = Some r"
          using "1.hyps" nx True Inr st by simp
        have "I v'" using "1.prems"(1,2) st by blast
        then show ?thesis
          using "1.IH" [OF rec] "1.prems"(2,3,4) by blast
      qed
    qed
  qed
qed fact

lemma Delete_loop_yields:
  "yields iter s os s' \<Longrightarrow>
     Delete_loop d opts iter s v =
       Some (case steps d opts os v of Inl c \<Rightarrow> Inl c | Inr v' \<Rightarrow> Inr (v', s'))"
proof (induction os arbitrary: s v)
  case Nil
  then show ?case by (subst Delete_loop.simps) simp
next
  case (Cons a os)
  obtain ok s1 where nx: "Next iter s = (ok, s1)" by (cases "Next iter s")
  with Cons.prems have ok: "ok" and del: "DeleteObject iter s1 = Inr a" and y: "yields iter s1 os s'"
    by simp_all
  show ?case
  proof (cases "step d opts a v")
    case (Inl c)
    then show ?thesis using nx ok del by (subst Delete_loop.simps) simp
  next
    case (Inr v')
    then show ?thesis using nx ok del Cons.IH [OF y, of v'] by (subst Delete_loop.simps) simp
  qed
qed

lemma Delete_yields:
  assumes "yields iter s os s'"
  shows "Delete d iter s opts w =
           Some (case steps d opts os (initial w) of
                   Inl (p, w', tr) \<Rightarrow> (Inl p, w', tr)
                 | Inr v \<Rightarrow> Delete_finish d (Err iter s') v)"
  unfolding Delete_def Delete_loop_yields [OF assms]
  by (simp split: sum.splits)

lemma static_yields_from:
  "n < length os \<Longrightarrow>
     yields DeleteObjectsIterator_impl \<lparr>Objects = os, index = int n, inc = True\<rparr> (drop (Suc n) os)
       \<lparr>Objects = os, index = int (length os), inc = True\<rparr>"
proof (induction "length os - n" arbitrary: n)
  case 0
  then show ?case by simp
next
  case (Suc k)
  show ?case
  proof (cases "Suc n < length os")
    case True
    then have d: "drop (Suc n) os = os ! Suc n # drop (Suc (Suc n)) os"
      by (simp add: Cons_nth_drop_Suc)
    have "k = length os - Suc n" using Suc.hyps(2) by simp
    from Suc.hyps(1) [OF this True]
    have "yields DeleteObjectsIterator_impl \<lparr>Objects = os, index = int (Suc n), inc = True\<rparr>
            (drop (Suc (Suc n)) os) \<lparr>Objects = os, index = int (length os), inc = True\<rparr>" .
    then show ?thesis using True unfolding d
      by (simp add: DeleteObjectsIterator_impl_def DeleteObjectsIterator_Next_def
            DeleteObjectsIterator_DeleteObject_def Let_def add.commute nat_add_distrib)
  next
    case False
    with Suc.prems have "length os = Suc n" by simp
    then show ?thesis
      by (simp add: DeleteObjectsIterator_impl_def DeleteObjectsIterator_Next_def Let_def)
  qed
qed

lemma static_yields:
  "yields DeleteObjectsIterator_impl \<lparr>Objects = os, index = 0, inc = False\<rparr> os
     \<lparr>Objects = os, index = int (length os), inc = True\<rparr>"
proof (cases os)
  case Nil
  then show ?thesis
    by (simp add: DeleteObjectsIterator_impl_def DeleteObjectsIterator_Next_def Let_def)
next
  case (Cons a as)
  then have "0 < length os" by simp
  from static_yields_from [OF this] show ?thesis using Cons
    by (simp add: DeleteObjectsIterator_impl_def DeleteObjectsIterator_Next_def
          DeleteObjectsIterator_DeleteObject_def Let_def)
qed

lemma Delete_static:
  "Delete d DeleteObjectsIterator_impl \<lparr>Objects = os, index = 0, inc = False\<rparr> opts w =
     Some (case steps d opts os (initial w) of
             Inl (p, w', tr) \<Rightarrow> (Inl p, w', tr)
           | Inr v \<Rightarrow> Delete_finish d None v)"
proof -
  have "Err DeleteObjectsIterator_impl s = None" for s :: "'a DeleteObjectsIterator"
    by (simp add: DeleteObjectsIterator_impl_def DeleteObjectsIterator_Err_def)
  then show ?thesis using Delete_yields [OF static_yields, of d os opts w]
    by (simp cong: sum.case_cong)
qed

text \<open>
  Over pages none of which is empty, the paginated iterator hands out every object of
  every page, in order; it ends when the pages are used up, without an error, or at the
  first fetch that fails, with the error of that fetch.
\<close>

lemma list_iterator_rest_of_page:
  fixes s' :: "(error + string option list) list DeleteListIterator"
  assumes "yields (DeleteListIterator_impl scripted)
             \<lparr>ListBucket = b, PaginatorState = rest, listed = [], err = None\<rparr> cs s'"
  shows "yields (DeleteListIterator_impl scripted)
           \<lparr>ListBucket = b, PaginatorState = rest, listed = k # ks, err = None\<rparr>
           (listed_candidates b ks @ cs) s'"
proof (induction ks arbitrary: k)
  case Nil
  have e: "DeleteListIterator_Next scripted
          \<lparr>ListBucket = b, PaginatorState = rest, listed = [k], err = None\<rparr> =
        DeleteListIterator_Next scripted
          \<lparr>ListBucket = b, PaginatorState = rest, listed = [], err = None\<rparr>"
    by (simp add: DeleteListIterator_Next_def Let_def)
  show ?case using assms
    by (cases cs) (simp_all add: listed_candidates_def DeleteListIterator_impl_def e)
next
  case (Cons x xs)
  from Cons.IH [of x] show ?case
    by (simp add: listed_candidates_def DeleteListIterator_impl_def DeleteListIterator_Next_def
          DeleteListIterator_DeleteObject_def Let_def)
qed

lemma list_iterator_pages:
  assumes "\<forall>p \<in> set pages. p \<noteq> []"
  shows "yields (DeleteListIterator_impl scripted)
           \<lparr>ListBucket = b, PaginatorState = map Inr pages, listed = [], err = None\<rparr>
           (listed_candidates b (concat pages))
           \<lparr>ListBucket = b, PaginatorState = [], listed = [], err = None\<rparr>"
    and "yields (DeleteListIterator_impl scripted)
           \<lparr>ListBucket = b, PaginatorState = map Inr pages @ Inl e # rest, listed = [], err = None\<rparr>
           (listed_candidates b (concat pages))
           \<lparr>ListBucket = b, PaginatorState = Inl e # rest, listed = [], err = Some e\<rparr>"
  using assms
proof (induction pages)
  case Nil
  {
    case 1
    show ?case
      by (simp add: listed_candidates_def DeleteListIterator_impl_def DeleteListIterator_Next_def
            scripted_def Let_def)
  next
    case 2
    show ?case
      by (simp add: listed_candidates_def DeleteListIterator_impl_def DeleteListIterator_Next_def
            scripted_def Let_def)
  }
next
  case (Cons p ps)
  {
    case 1
    then obtain k ks where p: "p = k # ks" by (cases p) auto
    from 1 have "\<forall>p \<in> set ps. p \<noteq> []" by simp
    from list_iterator_rest_of_page [OF Cons.IH(1) [OF this], of k ks]
    show ?case unfolding p
      by (simp add: listed_candidates_def DeleteListIterator_impl_def DeleteListIterator_Next_def
            DeleteListIterator_DeleteObject_def scripted_def Let_def)
  next
    case 2
    then obtain k ks where p: "p = k # ks" by (cases p) auto
    from 2 have "\<forall>p \<in> set ps. p \<noteq> []" by simp
    from list_iterator_rest_of_page [OF Cons.IH(2) [OF this], of k ks]
    show ?case unfolding p
      by (simp add: listed_candidates_def DeleteListIterator_impl_def DeleteListIterator_Next_def
            DeleteListIterator_DeleteObject_def scripted_def Let_def)
  }
qed

subsection \<open>Invariants of the loop\<close>

lemma step_failures:
  assumes "errs v = failures (trace v)" and "step d opts o' v = Inr v'"
  shows "errs v' = failures (trace v')"
proof (cases rule: step_cases [of o' d opts v])
  case nil
  then show ?thesis using assms by simp
next
  case (append oi i2)
  then show ?thesis using assms by auto
next
  case (full oi i2)
  then show ?thesis using assms
    by (auto split: prod.splits sum.splits dest: deleteBatch_failures)
next
  case (break oi i2)
  then show ?thesis using assms
    by (auto split: prod.splits sum.splits dest: deleteBatch_failures)
qed

lemma Delete_finish_failures:
  assumes "errs v = failures (trace v)" and "Delete_finish d e v = (Inr r, w', tr')"
  shows "r = (if failures tr' = [] then None
              else Some (NewBatchError ''BatchedDeleteIncomplete''
                           ''some objects have failed to be deleted.'' (failures tr')))"
  using assms unfolding Delete_finish_def
  by (auto simp: Let_def failures_append failures_Cons failures_Nil newError_def
           split: option.splits prod.splits sum.splits if_splits
           dest!: deleteBatch_failures)


lemma calls_ok_snoc:
  "calls_ok B tr \<Longrightarrow> deleteBatch d i os w tr = (r, w', tr') \<Longrightarrow> batch_invariant B i os
     \<Longrightarrow> calls_ok B tr'"
  by (simp add: calls_ok_def deleteBatch_calls)

lemma batch_invariant_weaken:
  "batch_invariant (B - 1) i os \<Longrightarrow> batch_invariant B i os"
  by (simp add: batch_invariant_def)

lemma batch_invariant_fields:
  assumes "InBucket j = InBucket i" "InMFA j = InMFA i" "InRequestPayer j = InRequestPayer i"
    "Delete_Objects j = Delete_Objects i"
  shows "batch_invariant B j os = batch_invariant B i os"
  using assms by (simp add: batch_invariant_def hasParity_iff)

lemma batch_invariant_apply_opts:
  "\<forall>opt \<in> set opts. keeps_batch opt \<Longrightarrow>
     batch_invariant B (apply_opts opts i) os = batch_invariant B i os"
  by (rule batch_invariant_fields) (simp_all add: apply_opts_keeps)

lemma batch_invariant_snoc:
  assumes "batch_invariant C i os" "Object o' = Some oi" "hasParity i oi"
    "int (length (Delete_Objects i)) + 1 \<le> B"
  shows "batch_invariant B (i\<lparr>Delete_Objects := Delete_Objects i @ [objectIdentifier oi]\<rparr>) (os @ [o'])"
  using assms by (auto simp: batch_invariant_def hasParity_iff)

lemma batch_invariant_first:
  assumes "Object o' = Some oi" "hasParity i oi" "Delete_Objects i = []" "1 \<le> B"
  shows "batch_invariant B (i\<lparr>Delete_Objects := Delete_Objects i @ [objectIdentifier oi]\<rparr>) [o']"
  using assms by (auto simp: batch_invariant_def hasParity_iff)

lemma step_batch_invariant:
  assumes keeps: "\<forall>opt \<in> set opts. keeps_batch opt" and B: "1 \<le> BatchSize d"
    and inv: "open_batch_ok (BatchSize d) v" "calls_ok (BatchSize d) (trace v)"
  shows "case step d opts o' v of
           Inl (p, w, tr) \<Rightarrow> calls_ok (BatchSize d) tr
         | Inr v' \<Rightarrow> open_batch_ok (BatchSize d) v' \<and> calls_ok (BatchSize d) (trace v')"
proof (cases rule: step_cases [of o' d opts v])
  case nil
  then show ?thesis using inv by simp
next
  case (append oi i2)
  let ?i3 = "i2\<lparr>Delete_Objects := Delete_Objects i2 @ [objectIdentifier oi]\<rparr>"
  have "batch_invariant (BatchSize d - 1) ?i3 (objects v @ [o'])"
  proof (cases "input v")
    case None
    then have i2: "i2 = apply_opts opts (initDeleteObjectsInput oi)" using append(2) by simp
    have e: "Delete_Objects i2 = []"
      by (simp add: i2 apply_opts_keeps [OF keeps] initDeleteObjectsInput_def)
    have "1 \<le> BatchSize d - 1" using append(4) B e by simp
    from batch_invariant_first [OF append(1) append(3) e this]
    show ?thesis using None inv(1) by (simp add: open_batch_ok_def)
  next
    case (Some i)
    then have i2: "i2 = apply_opts opts i" using append(2) by simp
    have bi: "batch_invariant (BatchSize d - 1) i2 (objects v)"
      using inv(1) Some by (simp add: open_batch_ok_def i2 batch_invariant_apply_opts [OF keeps])
    then have "int (length (Delete_Objects i2)) \<le> BatchSize d - 1" by (simp add: batch_invariant_def)
    then have "int (length (Delete_Objects i2)) + 1 \<le> BatchSize d - 1" using append(4) by simp
    from batch_invariant_snoc [OF bi append(1) append(3) this] show ?thesis .
  qed
  then show ?thesis using append(5) inv(2) by (simp add: open_batch_ok_def)
next
  case (full oi i2)
  let ?i3 = "i2\<lparr>Delete_Objects := Delete_Objects i2 @ [objectIdentifier oi]\<rparr>"
  have bi: "batch_invariant (BatchSize d) ?i3 (objects v @ [o'])"
  proof (cases "input v")
    case None
    then have i2: "i2 = apply_opts opts (initDeleteObjectsInput oi)" using full(2) by simp
    have e: "Delete_Objects i2 = []"
      by (simp add: i2 apply_opts_keeps [OF keeps] initDeleteObjectsInput_def)
    from batch_invariant_first [OF full(1) full(3) e B]
    show ?thesis using None inv(1) by (simp add: open_batch_ok_def)
  next
    case (Some i)
    then have i2: "i2 = apply_opts opts i" using full(2) by simp
    have bi: "batch_invariant (BatchSize d - 1) i2 (objects v)"
      using inv(1) Some by (simp add: open_batch_ok_def i2 batch_invariant_apply_opts [OF keeps])
    have "int (length (Delete_Objects i2)) + 1 \<le> BatchSize d" using full(4) by simp
    from batch_invariant_snoc [OF bi full(1) full(3) this] show ?thesis .
  qed
  obtain r w' tr' where db: "deleteBatch d ?i3 (objects v @ [o']) (world v) (trace v) = (r, w', tr')"
    by (metis surj_pair)
  from calls_ok_snoc [OF inv(2) db bi] have "calls_ok (BatchSize d) tr'" .
  then show ?thesis using full(5) db by (cases r) (simp_all add: open_batch_ok_def)
next
  case (break oi i2)
  show ?thesis
  proof (cases "input v")
    case None
    then have "i2 = apply_opts opts (initDeleteObjectsInput oi)" using break(2) by simp
    then have "hasParity i2 oi" by (simp add: hasParity_apply_opts [OF keeps] hasParity_init)
    then show ?thesis using break(3) by simp
  next
    case (Some i)
    then have i2: "i2 = apply_opts opts i" using break(2) by simp
    have bi1: "batch_invariant (BatchSize d - 1) i2 (objects v)"
      using inv(1) Some by (simp add: open_batch_ok_def i2 batch_invariant_apply_opts [OF keeps])
    then have B2: "1 \<le> BatchSize d - 1" by (simp add: batch_invariant_def)
    have bi: "batch_invariant (BatchSize d) i2 (objects v)"
      using bi1 by (rule batch_invariant_weaken)
    obtain r w' tr' where db: "deleteBatch d i2 (objects v) (world v) (trace v) = (r, w', tr')"
      by (metis surj_pair)
    from calls_ok_snoc [OF inv(2) db bi] have ok: "calls_ok (BatchSize d) tr'" .
    have e: "Delete_Objects (apply_opts opts (initDeleteObjectsInput oi)) = []"
      by (simp add: apply_opts_keeps [OF keeps] initDeleteObjectsInput_def)
    have "hasParity (apply_opts opts (initDeleteObjectsInput oi)) oi"
      by (simp add: hasParity_apply_opts [OF keeps] hasParity_init)
    from batch_invariant_first [OF break(1) this e B2]
    have "batch_invariant (BatchSize d - 1) (seed opts oi) [o']" by (simp add: seed_def)
    then show ?thesis using break(4) db ok by (cases r) (simp_all add: open_batch_ok_def)
  qed
qed

lemma Delete_finish_batch_invariant:
  assumes inv: "open_batch_ok B v" "calls_ok B (trace v)"
    and fin: "Delete_finish d e v = (r, w', tr')"
  shows "calls_ok B tr'"
proof -
  define tr1 where "tr1 = (case e of Some x \<Rightarrow> trace v @ [IterErrEv x] | None \<Rightarrow> trace v)"
  have ok1: "calls_ok B tr1"
    using inv(2) by (simp add: tr1_def calls_ok_def calls_append split: option.splits)
  show ?thesis
  proof (cases "input v")
    case None
    then have "tr' = tr1" using fin unfolding Delete_finish_def tr1_def
      by (auto simp: Let_def split: option.splits if_splits)
    then show ?thesis using ok1 by simp
  next
    case (Some i)
    then have bi: "batch_invariant B i (objects v)"
      using inv(1) by (simp add: open_batch_ok_def batch_invariant_weaken)
    then have ne: "0 < length (Delete_Objects i)"
      by (cases "Delete_Objects i") (simp_all add: batch_invariant_def)
    obtain r2 w2 tr2 where db: "deleteBatch d i (objects v) (world v) tr1 = (r2, w2, tr2)"
      by (metis surj_pair)
    from calls_ok_snoc [OF ok1 db bi] have ok2: "calls_ok B tr2" .
    have "tr' = tr2" using fin Some ne db unfolding Delete_finish_def tr1_def
      by (cases e; cases r2) (auto simp: Let_def split: if_splits)
    then show ?thesis using ok2 by simp
  qed
qed

lemma step_covered:
  assumes a: "answers (Client d)" and o: "Object o' \<noteq> None" and c: "covered os v"
  shows "\<exists>v'. step d opts o' v = Inr v' \<and> covered (os @ [o']) v'"
proof (cases rule: step_cases [of o' d opts v])
  case nil
  then show ?thesis using o by simp
next
  case (append oi i2)
  then show ?thesis using c o by (auto simp: covered_def)
next
  case (full oi i2)
  let ?i3 = "i2\<lparr>Delete_Objects := Delete_Objects i2 @ [objectIdentifier oi]\<rparr>"
  have "\<forall>x \<in> set (objects v @ [o']). Object x \<noteq> None" using c o by (auto simp: covered_def)
  from deleteBatch_returns [OF a this, of ?i3 "world v" "trace v"] obtain es w' tr' where
    db: "deleteBatch d ?i3 (objects v @ [o']) (world v) (trace v) = (Inr es, w', tr')" by blast
  from deleteBatch_calls [OF db] have "calls tr' = calls (trace v) @ [(?i3, objects v @ [o'])]" .
  then show ?thesis using full(5) db c deleteBatch_hooks_order [OF db]
    by (auto simp: covered_def)
next
  case (break oi i2)
  have "\<forall>x \<in> set (objects v). Object x \<noteq> None" using c by (auto simp: covered_def)
  from deleteBatch_returns [OF a this, of i2 "world v" "trace v"] obtain es w' tr' where
    db: "deleteBatch d i2 (objects v) (world v) (trace v) = (Inr es, w', tr')" by blast
  from deleteBatch_calls [OF db] have "calls tr' = calls (trace v) @ [(i2, objects v)]" .
  then show ?thesis using break(4) db c o deleteBatch_hooks_order [OF db]
    by (auto simp: covered_def seed_def)
qed

lemma steps_covered:
  assumes a: "answers (Client d)"
  shows "\<forall>o' \<in> set os. Object o' \<noteq> None \<Longrightarrow> covered seen v
           \<Longrightarrow> \<exists>v'. steps d opts os v = Inr v' \<and> covered (seen @ os) v'"
proof (induction os arbitrary: v seen)
  case Nil
  then show ?case by simp
next
  case (Cons x xs)
  from Cons.prems have "Object x \<noteq> None" by simp
  from step_covered [OF a this Cons.prems(2), of opts] obtain v1 where
    s1: "step d opts x v = Inr v1" and c1: "covered (seen @ [x]) v1" by blast
  from Cons.prems have "\<forall>o' \<in> set xs. Object o' \<noteq> None" by simp
  from Cons.IH [OF this c1] show ?case using s1 by simp
qed

lemma Delete_finish_covered:
  assumes a: "answers (Client d)" and c: "covered os v"
  shows "\<exists>r w' tr'. Delete_finish d e v = (Inr r, w', tr') \<and>
           concat (map snd (calls tr')) = os \<and>
           map fst (hooks tr') = filter (\<lambda>o'. After o' \<noteq> None) os"
proof -
  define tr1 where "tr1 = (case e of Some x \<Rightarrow> trace v @ [IterErrEv x] | None \<Rightarrow> trace v)"
  have c1: "calls tr1 = calls (trace v)"
    by (simp add: tr1_def calls_append split: option.splits)
  have h1: "hooks tr1 = hooks (trace v)"
    by (simp add: tr1_def hooks_append split: option.splits)
  show ?thesis
  proof (cases "input v")
    case None
    then have "objects v = []" using c by (simp add: covered_def)
    then have "concat (map snd (calls tr1)) = os"
      "map fst (hooks tr1) = filter (\<lambda>o'. After o' \<noteq> None) os"
      using c c1 h1 by (simp_all add: covered_def)
    then show ?thesis using None unfolding Delete_finish_def tr1_def
      by (auto simp: Let_def split: option.splits)
  next
    case (Some i)
    then have ne: "0 < length (Delete_Objects i)" using c by (simp add: covered_def)
    have "\<forall>x \<in> set (objects v). Object x \<noteq> None" using c by (auto simp: covered_def)
    from deleteBatch_returns [OF a this, of i "world v" tr1] obtain es w' tr' where
      db: "deleteBatch d i (objects v) (world v) tr1 = (Inr es, w', tr')" by blast
    from deleteBatch_calls [OF db] have "calls tr' = calls tr1 @ [(i, objects v)]" .
    then have 1: "concat (map snd (calls tr')) = os" using c c1 by (auto simp: covered_def)
    from deleteBatch_hooks_order [OF db]
    have 2: "map fst (hooks tr') = filter (\<lambda>o'. After o' \<noteq> None) os"
      using c h1 by (auto simp: covered_def)
    show ?thesis using Some ne db 1 2 unfolding Delete_finish_def tr1_def
      by (cases e) (auto simp: Let_def)
  qed
qed

lemma Delete_covered:
  assumes "answers (Client d)" and "\<forall>o' \<in> set os. Object o' \<noteq> None" and "yields iter s os s'"
  shows "\<exists>r w' tr. Delete d iter s opts w = Some (Inr r, w', tr) \<and>
           concat (map snd (calls tr)) = os \<and>
           map fst (hooks tr) = filter (\<lambda>o'. After o' \<noteq> None) os"
proof -
  have "covered [] (initial w)" by (simp add: covered_def initial_def)
  from steps_covered [OF assms(1) assms(2) this, of opts] obtain v where
    st: "steps d opts os (initial w) = Inr v" and c: "covered os v" by auto
  from Delete_finish_covered [OF assms(1) c, of "Err iter s'"] show ?thesis
    unfolding Delete_yields [OF assms(3)] st by simp
qed

subsection \<open>Runs over candidates of uniform parity\<close>

lemma open_uniform_initial: "open_uniform b m rp 0 (initial w)"
  by (simp add: open_uniform_def initial_def)


lemma step_uniform:
  assumes keeps: "\<forall>opt \<in> set opts. keeps_batch opt" and a: "answers (Client d)"
    and u: "open_uniform b m rp k v"
    and o: "Object o' = Some oi" "Bucket oi = b" "MFA oi = m" "RequestPayer oi = rp"
  shows "\<exists>v'. step d opts o' v = Inr v' \<and>
           (if int (k + 1) = BatchSize d
            then open_uniform b m rp 0 v' \<and>
                 (\<exists>i. calls (trace v') = calls (trace v) @ [(i, objects v @ [o'])] \<and>
                      length (Delete_Objects i) = k + 1)
            else open_uniform b m rp (k + 1) v' \<and> trace v' = trace v \<and>
                 objects v' = objects v @ [o'])"
proof -
  define i1 where "i1 = (case input v of None \<Rightarrow> initDeleteObjectsInput oi | Some i \<Rightarrow> i)"
  have f1: "InBucket i1 = b \<and> InMFA i1 = m \<and> InRequestPayer i1 = rp \<and> length (Delete_Objects i1) = k"
    using u o by (auto simp: i1_def open_uniform_def initDeleteObjectsInput_def split: option.splits)
  have par: "hasParity (apply_opts opts i1) oi"
    using f1 o by (simp add: hasParity_iff apply_opts_keeps [OF keeps])
  have len: "length (Delete_Objects (apply_opts opts i1)) = k"
    using f1 by (simp add: apply_opts_keeps [OF keeps])
  show ?thesis
  proof (cases rule: step_cases [of o' d opts v])
    case nil
    then show ?thesis using o by simp
  next
    case (append oi' i2)
    then have e1: "oi' = oi" using o by simp
    have "oi' = oi" "i2 = apply_opts opts i1" using e1 append(2) by (auto simp: i1_def)
    then show ?thesis using append(4,5) len u f1 o(1)
      by (simp add: open_uniform_def apply_opts_keeps [OF keeps])
  next
    case (full oi' i2)
    then have e1: "oi' = oi" using o by simp
    have e: "oi' = oi" "i2 = apply_opts opts i1" using e1 full(2) by (auto simp: i1_def)
    let ?i3 = "i2\<lparr>Delete_Objects := Delete_Objects i2 @ [objectIdentifier oi]\<rparr>"
    have "\<forall>x \<in> set (objects v @ [o']). Object x \<noteq> None" using u o by (auto simp: open_uniform_def)
    from deleteBatch_returns [OF a this, of ?i3 "world v" "trace v"] obtain es w' tr' where
      db: "deleteBatch d ?i3 (objects v @ [o']) (world v) (trace v) = (Inr es, w', tr')" by blast
    from deleteBatch_calls [OF db] have "calls tr' = calls (trace v) @ [(?i3, objects v @ [o'])]" .
    then show ?thesis using full(4,5) e db len o(1)
      by (auto simp: open_uniform_def)
  next
    case (break oi' i2)
    then have e1: "oi' = oi" using o by simp
    have "oi' = oi" "i2 = apply_opts opts i1" using e1 break(2) by (auto simp: i1_def)
    then show ?thesis using break(3) par by simp
  qed
qed




lemma steps_uniform_unbounded:
  assumes keeps: "\<forall>opt \<in> set opts. keeps_batch opt" and a: "answers (Client d)"
    and B: "BatchSize d \<le> 0"
  shows "uniform b m rp os \<Longrightarrow> open_uniform b m rp k v \<Longrightarrow>
           \<exists>v'. steps d opts os v = Inr v' \<and> open_uniform b m rp (k + length os) v' \<and>
                trace v' = trace v \<and> objects v' = objects v @ os"
proof (induction os arbitrary: k v)
  case Nil
  then show ?case by simp
next
  case (Cons x xs)
  from Cons.prems(1) obtain oi where
    o: "Object x = Some oi" "Bucket oi = b" "MFA oi = m" "RequestPayer oi = rp"
    and uxs: "uniform b m rp xs"
    by (auto simp: uniform_def)
  have ne: "int (k + 1) \<noteq> BatchSize d" using B by simp
  from step_uniform [OF keeps a Cons.prems(2) o] ne obtain v1 where
    s1: "step d opts x v = Inr v1"
    and u1: "open_uniform b m rp (k + 1) v1" and t1: "trace v1 = trace v"
    and o1: "objects v1 = objects v @ [x]"
    by auto
  from Cons.IH [OF uxs u1] obtain v' where
    "steps d opts xs v1 = Inr v'" "open_uniform b m rp (k + 1 + length xs) v'"
    "trace v' = trace v1" "objects v' = objects v1 @ xs"
    by blast
  then show ?case using s1 t1 o1 by simp
qed

lemma Delete_finish_uniform:
  assumes a: "answers (Client d)" and u: "open_uniform b m rp k v"
  shows "\<exists>r w' tr'. Delete_finish d e v = (Inr r, w', tr') \<and>
           calls tr' = calls (trace v) @ (case input v of None \<Rightarrow> [] | Some i \<Rightarrow> [(i, objects v)])"
proof -
  define tr1 where "tr1 = (case e of Some x \<Rightarrow> trace v @ [IterErrEv x] | None \<Rightarrow> trace v)"
  have c1: "calls tr1 = calls (trace v)"
    by (simp add: tr1_def calls_append split: option.splits)
  show ?thesis
  proof (cases "input v")
    case None
    then show ?thesis using c1 unfolding Delete_finish_def tr1_def
      by (auto simp: Let_def split: option.splits)
  next
    case (Some i)
    then have ne: "0 < length (Delete_Objects i)" using u by (simp add: open_uniform_def)
    have "\<forall>x \<in> set (objects v). Object x \<noteq> None" using u by (simp add: open_uniform_def)
    from deleteBatch_returns [OF a this, of i "world v" tr1] obtain es w' tr' where
      db: "deleteBatch d i (objects v) (world v) tr1 = (Inr es, w', tr')" by blast
    from deleteBatch_calls [OF db] have "calls tr' = calls (trace v) @ [(i, objects v)]"
      using c1 by simp
    then show ?thesis using Some ne db unfolding Delete_finish_def tr1_def
      by (cases e) (auto simp: Let_def)
  qed
qed

subsection \<open>Evaluation of the examples\<close>

lemmas run_defs =
  Delete_static step_def deleteBatch_def runHooks.simps hasParity_def ptr_differs_def
  initDeleteObjectsInput_def apply_opts_def objectIdentifier_def initial_def Delete_finish_def
  Let_def newError_def NewBatchError_def perKeyError_def candidate_def succeeding_def failing_def

lemmas example_defs =
  hooked_def passing_hook_def failing_hook_def reporting_def request_def

lemmas list_iterator_defs =
  DeleteListIterator_impl_def DeleteListIterator_Next_def DeleteListIterator_Err_def
  DeleteListIterator_DeleteObject_def scripted_def

subsection \<open>C1: the calls of a run with uniform parity\<close>



subsection \<open>C2: the batch invariant\<close>

text \<open>
  Claim C2. Whatever the iterator and for every batch size of at least 1, every
  \<^verbatim>\<open>DeleteObjects\<close> call of a run of \<^verbatim>\<open>Delete\<close> that ends (by returning or by a
  panic) satisfies the batch invariant: the members of the request are the identifiers
  of the candidates of the batch, every candidate has the bucket, the MFA token and the
  payer of the request (parity, as \<^verbatim>\<open>hasParity\<close> decides it), and the request has at
  least one and at most \<^verbatim>\<open>BatchSize\<close> members. The option functions of the caller are
  taken to leave these fields of the request alone.
\<close>

theorem every_call_satisfies_batch_invariant:
  assumes "\<forall>opt \<in> set opts. keeps_batch opt" and "1 \<le> BatchSize d"
    and "Delete d iter s opts w = Some (r, w', tr)"
  shows "\<forall>(i, os) \<in> set (calls tr). batch_invariant (BatchSize d) i os"
proof -
  let ?I = "\<lambda>v. open_batch_ok (BatchSize d) v \<and> calls_ok (BatchSize d) (trace v)"
  let ?C = "\<lambda>c. case c of (p, w, tr) \<Rightarrow> calls_ok (BatchSize d) tr"
  obtain x where loop: "Delete_loop d opts iter s (initial w) = Some x"
    using assms(3) unfolding Delete_def by (cases "Delete_loop d opts iter s (initial w)") simp_all
  have init: "?I (initial w)"
    by (simp add: initial_def open_batch_ok_def calls_ok_def)
  have inv: "case x of Inl c \<Rightarrow> ?C c | Inr (v', s') \<Rightarrow> ?I v'"
  proof (rule Delete_loop_invariant [OF loop, where I = ?I and C = ?C, OF init])
    fix o' v v'
    assume "?I v" "step d opts o' v = Inr v'"
    then show "?I v'"
      using step_batch_invariant [OF assms(1,2), of v o'] by simp
  next
    fix o' v c
    assume "?I v" "step d opts o' v = Inl c"
    then show "?C c"
      using step_batch_invariant [OF assms(1,2), of v o'] by simp
  next
    fix v p
    assume "?I v"
    then show "?C (p, world v, trace v)" by simp
  qed
  have "calls_ok (BatchSize d) tr"
  proof (cases x)
    case (Inl c)
    then show ?thesis using inv assms(3) loop unfolding Delete_def by (auto split: prod.splits)
  next
    case (Inr y)
    obtain v s' where y: "y = (v, s')" by (cases y)
    have fin: "Delete_finish d (Err iter s') v = (r, w', tr)"
      using assms(3) loop Inr y unfolding Delete_def by simp
    from inv Inr y have "open_batch_ok (BatchSize d) v" "calls_ok (BatchSize d) (trace v)" by simp_all
    from Delete_finish_batch_invariant [OF this fin] show ?thesis .
  qed
  then show ?thesis by (simp add: calls_ok_def list_all_iff)
qed

theorem every_call_satisfies_batch_invariant_witness:
  "\<exists>r w' tr.
     Delete \<lparr>Client = succeeding, BatchSize = 2\<rparr> DeleteObjectsIterator_impl
       \<lparr>Objects = [candidate ''A'' ''1'', candidate ''B'' ''2'', candidate ''B'' ''3'',
                   candidate ''B'' ''4''], index = 0, inc = False\<rparr> [] 0 = Some (r, w', tr) \<and>
     length (calls tr) = 3 \<and>
     list_all (\<lambda>(i, os). batch_invariant 2 i os) (calls tr)"
proof -
  let ?d = "\<lparr>Client = succeeding, BatchSize = 2\<rparr>"
  let ?s = "\<lparr>Objects = [candidate ''A'' ''1'', candidate ''B'' ''2'', candidate ''B'' ''3'',
                   candidate ''B'' ''4''], index = 0, inc = False\<rparr>"
  have "\<exists>r w' tr. Delete ?d DeleteObjectsIterator_impl ?s [] 0 = Some (r, w', tr) \<and>
          length (calls tr) = 3"
    by (simp add: run_defs)
  then obtain r w' tr where
    run: "Delete ?d DeleteObjectsIterator_impl ?s [] 0 = Some (r, w', tr)"
    and n: "length (calls tr) = 3" by blast
  have "\<forall>(i, os) \<in> set (calls tr). batch_invariant (BatchSize ?d) i os"
    by (rule every_call_satisfies_batch_invariant [OF _ _ run]) simp_all
  then show ?thesis using run n by (auto simp: list_all_iff)
qed

subsection \<open>C3: a candidate without parity\<close>

text \<open>
  Claim C3. When the candidate taken from the iterator has no parity with the open
  request (another bucket, MFA token or payer), the loop body calls \<^verbatim>\<open>DeleteObjects\<close>
  at once with the open request and its members as they are, however few, and goes on
  with a fresh request that holds this candidate alone and carries its bucket, MFA token
  and payer. Three candidates of the buckets A, A, B under the batch size 1000 give
  exactly two calls, the first with the two candidates of A, the second with the
  candidate of B.
\<close>

theorem parity_break_flushes:
  assumes keeps: "\<forall>opt \<in> set opts. keeps_batch opt" and a: "answers (Client d)"
    and opn: "input v = Some i" and nn: "\<forall>x \<in> set (objects v). Object x \<noteq> None"
    and o: "Object o' = Some oi" and np: "\<not> hasParity i oi"
  shows "(\<exists>v' es w' tr'.
            step d opts o' v = Inr v' \<and>
            deleteBatch d (apply_opts opts i) (objects v) (world v) (trace v) = (Inr es, w', tr') \<and>
            Delete_Objects (apply_opts opts i) = Delete_Objects i \<and>
            calls (trace v') = calls (trace v) @ [(apply_opts opts i, objects v)] \<and>
            trace v' = tr' \<and> world v' = w' \<and> errs v' = errs v @ es \<and>
            objects v' = [o'] \<and>
            (\<exists>i'. input v' = Some i' \<and> InBucket i' = Bucket oi \<and> InMFA i' = MFA oi \<and>
                  InRequestPayer i' = RequestPayer oi \<and>
                  Delete_Objects i' = [objectIdentifier oi])) \<and>
         (\<exists>r w' tr.
            Delete \<lparr>Client = succeeding, BatchSize = 1000\<rparr> DeleteObjectsIterator_impl
              \<lparr>Objects = [candidate ''A'' ''1'', candidate ''A'' ''2'', candidate ''B'' ''3''],
               index = 0, inc = False\<rparr> [] 0 = Some (Inr r, w', tr) \<and>
            map snd (calls tr) =
              [[candidate ''A'' ''1'', candidate ''A'' ''2''], [candidate ''B'' ''3'']] \<and>
            map (InBucket \<circ> fst) (calls tr) = [Some ''A'', Some ''B''])"
proof (rule conjI)
  show "\<exists>r w' tr.
            Delete \<lparr>Client = succeeding, BatchSize = 1000\<rparr> DeleteObjectsIterator_impl
              \<lparr>Objects = [candidate ''A'' ''1'', candidate ''A'' ''2'', candidate ''B'' ''3''],
               index = 0, inc = False\<rparr> [] 0 = Some (Inr r, w', tr) \<and>
            map snd (calls tr) =
              [[candidate ''A'' ''1'', candidate ''A'' ''2''], [candidate ''B'' ''3'']] \<and>
            map (InBucket \<circ> fst) (calls tr) = [Some ''A'', Some ''B'']"
    by (simp add: run_defs)
next
  have np2: "\<not> hasParity (apply_opts opts i) oi"
    using np by (simp add: hasParity_apply_opts [OF keeps])
  from deleteBatch_returns [OF a nn, of "apply_opts opts i" "world v" "trace v"]
  obtain es w' tr' where
    db: "deleteBatch d (apply_opts opts i) (objects v) (world v) (trace v) = (Inr es, w', tr')"
    by blast
  have st: "step d opts o' v =
          Inr \<lparr>errs = errs v @ es, objects = [o'], input = Some (seed opts oi),
               world = w', trace = tr'\<rparr>"
    using opn o np2 db by (cases rule: step_cases [of o' d opts v]) simp_all
  have sd: "InBucket (seed opts oi) = Bucket oi \<and> InMFA (seed opts oi) = MFA oi \<and>
            InRequestPayer (seed opts oi) = RequestPayer oi \<and>
            Delete_Objects (seed opts oi) = [objectIdentifier oi]"
    by (simp add: seed_def apply_opts_keeps [OF keeps] initDeleteObjectsInput_def)
  show "\<exists>v' es w' tr'.
            step d opts o' v = Inr v' \<and>
            deleteBatch d (apply_opts opts i) (objects v) (world v) (trace v) = (Inr es, w', tr') \<and>
            Delete_Objects (apply_opts opts i) = Delete_Objects i \<and>
            calls (trace v') = calls (trace v) @ [(apply_opts opts i, objects v)] \<and>
            trace v' = tr' \<and> world v' = w' \<and> errs v' = errs v @ es \<and>
            objects v' = [o'] \<and>
            (\<exists>i'. input v' = Some i' \<and> InBucket i' = Bucket oi \<and> InMFA i' = MFA oi \<and>
                  InRequestPayer i' = RequestPayer oi \<and>
                  Delete_Objects i' = [objectIdentifier oi])"
    using st db deleteBatch_calls [OF db] sd
    by (simp add: apply_opts_keeps [OF keeps])
qed

theorem parity_break_flushes_witness:
  "steps \<lparr>Client = succeeding, BatchSize = 1000\<rparr> [] [candidate ''A'' ''1'', candidate ''A'' ''2'']
     (initial 0) =
     Inr \<lparr>errs = [], objects = [candidate ''A'' ''1'', candidate ''A'' ''2''],
          input = Some (request ''A'' [''1'', ''2'']), world = 0, trace = []\<rparr> \<and>
   (\<exists>v' es w' tr'.
      step \<lparr>Client = succeeding, BatchSize = 1000\<rparr> [] (candidate ''B'' ''3'')
        \<lparr>errs = [], objects = [candidate ''A'' ''1'', candidate ''A'' ''2''],
         input = Some (request ''A'' [''1'', ''2'']), world = 0, trace = []\<rparr> = Inr v' \<and>
      calls (trace v') = [(request ''A'' [''1'', ''2''], [candidate ''A'' ''1'', candidate ''A'' ''2''])] \<and>
      trace v' = tr' \<and> world v' = w' \<and> errs v' = es \<and>
      objects v' = [candidate ''B'' ''3''] \<and>
      (\<exists>i'. input v' = Some i' \<and> InBucket i' = Some ''B'' \<and> InMFA i' = None \<and>
            InRequestPayer i' = [] \<and>
            Delete_Objects i' = [\<lparr>IdKey = Some ''3'', IdVersionId = None\<rparr>]))"
proof -
  let ?d = "\<lparr>Client = succeeding, BatchSize = 1000\<rparr>"
  let ?v = "\<lparr>errs = [], objects = [candidate ''A'' ''1'', candidate ''A'' ''2''],
          input = Some (request ''A'' [''1'', ''2'']), world = 0 :: nat,
          trace = [] :: nat event list\<rparr>"
  let ?oi = "\<lparr>Bucket = Some ''B'', Key = Some ''3'', VersionId = None, MFA = None, RequestPayer = []\<rparr>"
  have 0: "steps ?d [] [candidate ''A'' ''1'', candidate ''A'' ''2''] (initial 0) = Inr ?v"
    by (simp add: run_defs request_def)
  have k: "\<forall>opt \<in> set []. keeps_batch opt" by simp
  have a: "answers (Client ?d)" by (simp add: answers_def succeeding_def)
  have i: "input ?v = Some (request ''A'' [''1'', ''2''])" by simp
  have n: "\<forall>x \<in> set (objects ?v). Object x \<noteq> None" by (simp add: candidate_def)
  have ob: "Object (candidate ''B'' ''3'') = Some ?oi" by (simp add: candidate_def)
  have np: "\<not> hasParity (request ''A'' [''1'', ''2'']) ?oi" by (simp add: hasParity_iff request_def)
  from parity_break_flushes [OF k a i n ob np, THEN conjunct1] 0
  show ?thesis
    by (auto simp: apply_opts_Nil request_def objectIdentifier_def)
qed

subsection \<open>C4: the After hooks\<close>

text \<open>
  Claim C4. In \<^verbatim>\<open>deleteBatch\<close>, whether the call succeeded or failed, the hooks of the
  candidates of the batch run after the call, each candidate that has a hook exactly once
  and in the order of the batch: the first on the world the call left, each next one on
  the world the hook before it left. What the trace records of a hook is what that hook
  returned there. Each hook that returns an error adds one \<open>Error\<close> with that error and
  the bucket and the key of its candidate, after the errors of the call, so there are as
  many of them as hooks that returned an error, and the hooks after it still run. Over a
  whole run of \<^verbatim>\<open>Delete\<close>, every candidate the iterator yields is in exactly one batch, so
  the hooks that run are those of the candidates yielded that have one, each once, in
  order.
\<close>

theorem hooks_run_once_in_order:
  "(Client d inp w = ((res, er), w1) \<and> \<not> (res = None \<and> er = None) \<and>
    (\<forall>o' \<in> set os. Object o' \<noteq> None) \<longrightarrow>
      (\<exists>ces es w' t.
         deleteBatch d inp os w tr = (Inr (ces @ es), w', tr @ CallEv inp os res er # t) \<and>
         fst (deleteBatch d inp [] w tr) = Inr ces \<and>
         t = map (\<lambda>(o', r). HookEv o' r) (hook_returns os w1) \<and>
         hooks t = hook_returns os w1 \<and>
         length (hooks t) = length t \<and>
         map fst (hooks t) = filter (\<lambda>o'. After o' \<noteq> None) os \<and>
         w' = fold (\<lambda>o' w. case After o' of None \<Rightarrow> w | Some h \<Rightarrow> snd (h w)) os w1 \<and>
         es = concat (map (\<lambda>(o', r). case r of
                              None \<Rightarrow> []
                            | Some e \<Rightarrow>
                                (case Object o' of
                                   None \<Rightarrow> []
                                 | Some oi \<Rightarrow> [\<lparr>OrigErr = Some e, ErrorBucket = Bucket oi,
                                                ErrorKey = Key oi\<rparr>])) (hook_returns os w1)) \<and>
         length es = length (filter (\<lambda>(o', r). r \<noteq> None) (hook_returns os w1)))) \<and>
   (answers (Client d) \<and> (\<forall>o' \<in> set cs. Object o' \<noteq> None) \<and> yields iter s cs s' \<longrightarrow>
      (\<exists>r w' tr'.
         Delete d iter s opts w0 = Some (Inr r, w', tr') \<and>
         concat (map snd (calls tr')) = cs \<and>
         map fst (hooks tr') = filter (\<lambda>o'. After o' \<noteq> None) cs))"
proof (intro conjI impI)
  assume "Client d inp w = ((res, er), w1) \<and> \<not> (res = None \<and> er = None) \<and>
    (\<forall>o' \<in> set os. Object o' \<noteq> None)"
  then have c: "Client d inp w = ((res, er), w1)" and ne: "\<not> (res = None \<and> er = None)"
    and nn: "\<forall>o' \<in> set os. Object o' \<noteq> None" by simp_all
  from runHooks_returns [OF nn, of w1] obtain es w' t where
    h: "runHooks os [] w1 [] = (Inr es, w', t)" by blast
  have 1: "deleteBatch d inp os w tr =
          (Inr (failure (CallEv inp os res er) @ es), w', tr @ CallEv inp os res er # t)"
    by (rule deleteBatch_hooks [OF c ne h])
  have "failure (CallEv inp [] res er) = failure (CallEv inp os res er)"
    by (cases er; cases res) simp_all
  then have 2: "fst (deleteBatch d inp [] w tr) = Inr (failure (CallEv inp os res er))"
    using deleteBatch_hooks [OF c ne, of "[]" "[]" w1 "[]" tr] by simp
  have 3: "t = map (\<lambda>(o', r). HookEv o' r) (hook_returns os w1)"
    using runHooks_hook_returns [OF h] by simp
  have 4: "hooks t = hook_returns os w1"
    unfolding 3 by (rule hooks_HookEv)
  have 5: "length (hooks t) = length t" by (rule runHooks_only_hooks [OF h])
  have 6: "map fst (hooks t) = filter (\<lambda>o'. After o' \<noteq> None) os" by (rule runHooks_order [OF h])
  have 7: "w' = fold (\<lambda>o' w. case After o' of None \<Rightarrow> w | Some h \<Rightarrow> snd (h w)) os w1"
    by (rule runHooks_world [OF h])
  have 8: "es = concat (map (\<lambda>(o', r). case r of
                                None \<Rightarrow> []
                              | Some e \<Rightarrow>
                                  (case Object o' of
                                     None \<Rightarrow> []
                                   | Some oi \<Rightarrow> [\<lparr>OrigErr = Some e, ErrorBucket = Bucket oi,
                                                  ErrorKey = Key oi\<rparr>])) (hook_returns os w1))"
    using runHooks_hook_returns [OF h] by (simp add: hook_errors_def)
  have "set (map fst (hook_returns os w1)) \<subseteq> set os"
    unfolding 4 [symmetric] 6 by auto
  then have "\<forall>(o', r) \<in> set (hook_returns os w1). Object o' \<noteq> None"
    using nn by force
  then have 9: "length es = length (filter (\<lambda>(o', r). r \<noteq> None) (hook_returns os w1))"
    unfolding 8 by (rule hook_errors_length [unfolded hook_errors_def])
  show "\<exists>ces es w' t.
         deleteBatch d inp os w tr = (Inr (ces @ es), w', tr @ CallEv inp os res er # t) \<and>
         fst (deleteBatch d inp [] w tr) = Inr ces \<and>
         t = map (\<lambda>(o', r). HookEv o' r) (hook_returns os w1) \<and>
         hooks t = hook_returns os w1 \<and>
         length (hooks t) = length t \<and>
         map fst (hooks t) = filter (\<lambda>o'. After o' \<noteq> None) os \<and>
         w' = fold (\<lambda>o' w. case After o' of None \<Rightarrow> w | Some h \<Rightarrow> snd (h w)) os w1 \<and>
         es = concat (map (\<lambda>(o', r). case r of
                              None \<Rightarrow> []
                            | Some e \<Rightarrow>
                                (case Object o' of
                                   None \<Rightarrow> []
                                 | Some oi \<Rightarrow> [\<lparr>OrigErr = Some e, ErrorBucket = Bucket oi,
                                                ErrorKey = Key oi\<rparr>])) (hook_returns os w1)) \<and>
         length es = length (filter (\<lambda>(o', r). r \<noteq> None) (hook_returns os w1))"
    using 1 2 3 4 5 6 7 8 9 by blast
next
  assume "answers (Client d) \<and> (\<forall>o' \<in> set cs. Object o' \<noteq> None) \<and> yields iter s cs s'"
  then have 1: "answers (Client d)" and 2: "\<forall>o' \<in> set cs. Object o' \<noteq> None"
    and 3: "yields iter s cs s'" by simp_all
  show "\<exists>r w' tr'.
         Delete d iter s opts w0 = Some (Inr r, w', tr') \<and>
         concat (map snd (calls tr')) = cs \<and>
         map fst (hooks tr') = filter (\<lambda>o'. After o' \<noteq> None) cs"
    by (rule Delete_covered [OF 1 2 3])
qed


theorem hooks_run_once_in_order_witness:
  "deleteBatch \<lparr>Client = failing, BatchSize = 2\<rparr> (request ''A'' [''1'', ''2'', ''3''])
     [hooked ''A'' ''1'' failing_hook, candidate ''A'' ''2'', hooked ''A'' ''3'' passing_hook] 0 [] =
     (Inr [\<lparr>OrigErr = Some (ExternalError ''timeout''), ErrorBucket = Some ''A'', ErrorKey = Some ''1''\<rparr>,
           \<lparr>OrigErr = Some (ExternalError ''timeout''), ErrorBucket = Some ''A'', ErrorKey = Some ''2''\<rparr>,
           \<lparr>OrigErr = Some (ExternalError ''timeout''), ErrorBucket = Some ''A'', ErrorKey = Some ''3''\<rparr>,
           \<lparr>OrigErr = Some (ExternalError ''hook failed''), ErrorBucket = Some ''A'',
             ErrorKey = Some ''1''\<rparr>],
      21,
      [CallEv (request ''A'' [''1'', ''2'', ''3''])
         [hooked ''A'' ''1'' failing_hook, candidate ''A'' ''2'', hooked ''A'' ''3'' passing_hook]
         None (Some (ExternalError ''timeout'')),
       HookEv (hooked ''A'' ''1'' failing_hook) (Some (ExternalError ''hook failed'')),
       HookEv (hooked ''A'' ''3'' passing_hook) None]) \<and>
   hook_returns
     [hooked ''A'' ''1'' failing_hook, candidate ''A'' ''2'', hooked ''A'' ''3'' passing_hook] 1 =
     [(hooked ''A'' ''1'' failing_hook, Some (ExternalError ''hook failed'')),
      (hooked ''A'' ''3'' passing_hook, None)] \<and>
   (\<exists>r w' tr'.
      Delete \<lparr>Client = failing, BatchSize = 2\<rparr> DeleteObjectsIterator_impl
        \<lparr>Objects = [hooked ''A'' ''1'' failing_hook, candidate ''A'' ''2'',
                    hooked ''A'' ''3'' passing_hook], index = 0, inc = False\<rparr> [] 0 =
        Some (Inr r, w', tr') \<and>
      concat (map snd (calls tr')) =
        [hooked ''A'' ''1'' failing_hook, candidate ''A'' ''2'', hooked ''A'' ''3'' passing_hook] \<and>
      map fst (hooks tr') =
        filter (\<lambda>o'. After o' \<noteq> None)
          [hooked ''A'' ''1'' failing_hook, candidate ''A'' ''2'', hooked ''A'' ''3'' passing_hook])"
proof -
  let ?d = "\<lparr>Client = failing, BatchSize = 2\<rparr>"
  let ?os = "[hooked ''A'' ''1'' failing_hook, candidate ''A'' ''2'', hooked ''A'' ''3'' passing_hook]"
  let ?s = "\<lparr>Objects = ?os, index = 0, inc = False\<rparr>"
  let ?s' = "\<lparr>Objects = ?os, index = int (length ?os), inc = True\<rparr>"
  have c: "Client ?d (request ''A'' [''1'', ''2'', ''3'']) 0 =
             ((None, Some (ExternalError ''timeout'')), 1) \<and>
           \<not> (None = (None :: DeleteObjectsOutput option) \<and> Some (ExternalError ''timeout'') = None) \<and>
           (\<forall>o' \<in> set ?os. Object o' \<noteq> None)"
    by (simp add: failing_def hooked_def candidate_def)
  have r: "answers (Client ?d) \<and> (\<forall>o' \<in> set ?os. Object o' \<noteq> None) \<and>
           yields DeleteObjectsIterator_impl ?s ?os ?s'"
    using static_yields [of ?os] by (simp add: answers_def failing_def hooked_def candidate_def)
  note t = hooks_run_once_in_order [where d = ?d and inp = "request ''A'' [''1'', ''2'', ''3'']"
      and w = 0 and res = None and er = "Some (ExternalError ''timeout'')" and ?w1.0 = 1
      and os = ?os and tr = "[]" and cs = ?os and iter = DeleteObjectsIterator_impl
      and s = ?s and s' = ?s' and opts = "[]" and ?w0.0 = 0]
  have hr: "hook_returns ?os 1 =
     [(hooked ''A'' ''1'' failing_hook, Some (ExternalError ''hook failed'')),
      (hooked ''A'' ''3'' passing_hook, None)]"
    by (simp add: hooked_def candidate_def failing_hook_def passing_hook_def)
  have call: "fst (deleteBatch ?d (request ''A'' [''1'', ''2'', ''3'']) [] 0 []) =
     Inr [\<lparr>OrigErr = Some (ExternalError ''timeout''), ErrorBucket = Some ''A'', ErrorKey = Some ''1''\<rparr>,
          \<lparr>OrigErr = Some (ExternalError ''timeout''), ErrorBucket = Some ''A'', ErrorKey = Some ''2''\<rparr>,
          \<lparr>OrigErr = Some (ExternalError ''timeout''), ErrorBucket = Some ''A'', ErrorKey = Some ''3''\<rparr>]"
    by (simp add: deleteBatch_def failing_def request_def newError_def)
  have w: "fold (\<lambda>o' w. case After o' of None \<Rightarrow> w | Some h \<Rightarrow> snd (h w)) ?os (1::nat) = 21"
    by (simp add: hooked_def candidate_def failing_hook_def passing_hook_def)
  from t [THEN conjunct1] c obtain ces es w' t where
    1: "deleteBatch ?d (request ''A'' [''1'', ''2'', ''3'']) ?os 0 [] =
          (Inr (ces @ es), w',
           [] @ CallEv (request ''A'' [''1'', ''2'', ''3'']) ?os None (Some (ExternalError ''timeout'')) # t)"
    and 2: "fst (deleteBatch ?d (request ''A'' [''1'', ''2'', ''3'']) [] 0 []) = Inr ces"
    and 3: "t = map (\<lambda>(o', r). HookEv o' r) (hook_returns ?os 1)"
    and 4: "w' = fold (\<lambda>o' w. case After o' of None \<Rightarrow> w | Some h \<Rightarrow> snd (h w)) ?os 1"
    and 5: "es = concat (map (\<lambda>(o', r). case r of
                              None \<Rightarrow> []
                            | Some e \<Rightarrow>
                                (case Object o' of
                                   None \<Rightarrow> []
                                 | Some oi \<Rightarrow> [\<lparr>OrigErr = Some e, ErrorBucket = Bucket oi,
                                                ErrorKey = Key oi\<rparr>])) (hook_returns ?os 1))"
    by blast
  from 2 call have ces: "ces = [\<lparr>OrigErr = Some (ExternalError ''timeout''), ErrorBucket = Some ''A'', ErrorKey = Some ''1''\<rparr>,
          \<lparr>OrigErr = Some (ExternalError ''timeout''), ErrorBucket = Some ''A'', ErrorKey = Some ''2''\<rparr>,
          \<lparr>OrigErr = Some (ExternalError ''timeout''), ErrorBucket = Some ''A'', ErrorKey = Some ''3''\<rparr>]"
    by simp
  have es: "es = [\<lparr>OrigErr = Some (ExternalError ''hook failed''), ErrorBucket = Some ''A'',
             ErrorKey = Some ''1''\<rparr>]"
    unfolding 5 hr by (simp add: hooked_def candidate_def)
  have A: "deleteBatch ?d (request ''A'' [''1'', ''2'', ''3'']) ?os 0 [] =
     (Inr [\<lparr>OrigErr = Some (ExternalError ''timeout''), ErrorBucket = Some ''A'', ErrorKey = Some ''1''\<rparr>,
           \<lparr>OrigErr = Some (ExternalError ''timeout''), ErrorBucket = Some ''A'', ErrorKey = Some ''2''\<rparr>,
           \<lparr>OrigErr = Some (ExternalError ''timeout''), ErrorBucket = Some ''A'', ErrorKey = Some ''3''\<rparr>,
           \<lparr>OrigErr = Some (ExternalError ''hook failed''), ErrorBucket = Some ''A'',
             ErrorKey = Some ''1''\<rparr>],
      21,
      [CallEv (request ''A'' [''1'', ''2'', ''3'']) ?os None (Some (ExternalError ''timeout'')),
       HookEv (hooked ''A'' ''1'' failing_hook) (Some (ExternalError ''hook failed'')),
       HookEv (hooked ''A'' ''3'' passing_hook) None])"
    unfolding 1 3 4 w hr ces es by simp
  from t [THEN conjunct2] r have B: "\<exists>r w' tr'.
      Delete ?d DeleteObjectsIterator_impl ?s [] 0 = Some (Inr r, w', tr') \<and>
      concat (map snd (calls tr')) = ?os \<and>
      map fst (hooks tr') = filter (\<lambda>o'. After o' \<noteq> None) ?os"
    by blast
  from A hr B show ?thesis by (intro conjI)
qed

subsection \<open>C5: a call that fails as a whole\<close>



subsection \<open>C6: failures reported per key\<close>

text \<open>
  Claim C6. When the \<^verbatim>\<open>DeleteObjects\<close> call succeeds and its result lists errors,
  \<^verbatim>\<open>deleteBatch\<close> records exactly one \<open>Error\<close> per reported key, in the order reported: it
  carries the bucket of the request, the reported key, and the reported code and message,
  the code being "DeleteBatchError" when none is reported and the message "failed to
  delete" when none is reported. Keys that are not reported give no \<open>Error\<close>. When the
  hooks succeed these are all the errors; in general the only other errors are those of
  the hook loop.
\<close>

theorem per_key_failures:
  assumes "Client d inp w = ((Some res, None), w1)"
  shows "(hooks_succeed os \<longrightarrow>
            fst (deleteBatch d inp os w tr) =
              Inr (map (\<lambda>k. \<lparr>OrigErr = Some (AwsErr (case S3Code k of None \<Rightarrow> ''DeleteBatchError'' | Some c \<Rightarrow> c)
                                                     (case S3Message k of None \<Rightarrow> ''failed to delete'' | Some m \<Rightarrow> m)
                                                     None),
                               ErrorBucket = InBucket inp, ErrorKey = S3Key k\<rparr>) (ResultErrors res))) \<and>
         ((\<forall>o' \<in> set os. Object o' \<noteq> None) \<longrightarrow>
            (\<exists>es. fst (runHooks os [] w1 []) = Inr es \<and>
                  fst (deleteBatch d inp os w tr) =
                    Inr (map (\<lambda>k. \<lparr>OrigErr = Some (AwsErr (case S3Code k of None \<Rightarrow> ''DeleteBatchError'' | Some c \<Rightarrow> c)
                                                     (case S3Message k of None \<Rightarrow> ''failed to delete'' | Some m \<Rightarrow> m)
                                                     None),
                               ErrorBucket = InBucket inp, ErrorKey = S3Key k\<rparr>) (ResultErrors res) @ es)))"
proof (intro conjI impI)
  assume "hooks_succeed os"
  from deleteBatch_quiet [OF assms _ this, of tr]
  show "fst (deleteBatch d inp os w tr) =
              Inr (map (\<lambda>k. \<lparr>OrigErr = Some (AwsErr (case S3Code k of None \<Rightarrow> ''DeleteBatchError'' | Some c \<Rightarrow> c)
                                                     (case S3Message k of None \<Rightarrow> ''failed to delete'' | Some m \<Rightarrow> m)
                                                     None),
                               ErrorBucket = InBucket inp, ErrorKey = S3Key k\<rparr>) (ResultErrors res))"
    by simp
next
  assume "\<forall>o' \<in> set os. Object o' \<noteq> None"
  from runHooks_returns [OF this, of w1] obtain es w' t where
    h: "runHooks os [] w1 [] = (Inr es, w', t)" by blast
  from deleteBatch_hooks [OF assms _ h, of tr] h
  show "\<exists>es. fst (runHooks os [] w1 []) = Inr es \<and>
                  fst (deleteBatch d inp os w tr) =
                    Inr (map (\<lambda>k. \<lparr>OrigErr = Some (AwsErr (case S3Code k of None \<Rightarrow> ''DeleteBatchError'' | Some c \<Rightarrow> c)
                                                     (case S3Message k of None \<Rightarrow> ''failed to delete'' | Some m \<Rightarrow> m)
                                                     None),
                               ErrorBucket = InBucket inp, ErrorKey = S3Key k\<rparr>) (ResultErrors res) @ es)"
    by simp
qed

theorem per_key_failures_witness:
  "fst (deleteBatch \<lparr>Client = reporting, BatchSize = 1000\<rparr> (request ''A'' [''1'', ''2'', ''3''])
          [candidate ''A'' ''1'', candidate ''A'' ''2'', candidate ''A'' ''3''] 0 []) =
     Inr [\<lparr>OrigErr = Some (AwsErr ''DeleteBatchError'' ''failed to delete'' None),
           ErrorBucket = Some ''A'', ErrorKey = Some ''1''\<rparr>,
          \<lparr>OrigErr = Some (AwsErr ''AccessDenied'' ''Access Denied'' None),
           ErrorBucket = Some ''A'', ErrorKey = Some ''2''\<rparr>]"
proof -
  let ?d = "\<lparr>Client = reporting, BatchSize = 1000\<rparr>"
  let ?os = "[candidate ''A'' ''1'', candidate ''A'' ''2'', candidate ''A'' ''3'']"
  let ?res = "\<lparr>ResultErrors =
               [\<lparr>S3Key = Some ''1'', S3Code = None, S3Message = None\<rparr>,
                \<lparr>S3Key = Some ''2'', S3Code = Some ''AccessDenied'',
                 S3Message = Some ''Access Denied''\<rparr>]\<rparr>"
  have c: "Client ?d (request ''A'' [''1'', ''2'', ''3'']) 0 = ((Some ?res, None), 1)"
    by (simp add: reporting_def)
  have q: "hooks_succeed ?os" by (simp add: hooks_succeed_def candidate_def)
  from per_key_failures [OF c, of ?os "[]"] q show ?thesis
    by (simp add: request_def)
qed

subsection \<open>C7: the value returned\<close>

text \<open>
  Claim C7. When \<^verbatim>\<open>Delete\<close> returns, it returns nil if and only if the run collected no
  \<open>Error\<close>, that is, when the failures its trace calls for are none; otherwise it
  returns one \<open>BatchError\<close> that holds all of them in the order they occurred. An
  iterator that yields no candidate and reports no error makes \<^verbatim>\<open>Delete\<close> return nil
  without any call.
\<close>

theorem Delete_returns_collected_errors:
  "(Delete d iter s opts w = Some (Inr r, w', tr) \<longrightarrow>
      r = (if failures tr = [] then None
           else Some (NewBatchError ''BatchedDeleteIncomplete''
                        ''some objects have failed to be deleted.'' (failures tr)))) \<and>
   (Next iter s = (False, s') \<and> Err iter s' = None \<longrightarrow>
      Delete d iter s opts w = Some (Inr None, w, []))"
proof (intro conjI impI)
  assume run: "Delete d iter s opts w = Some (Inr r, w', tr)"
  let ?I = "\<lambda>v. errs v = failures (trace v)"
  obtain x where loop: "Delete_loop d opts iter s (initial w) = Some x"
    using run unfolding Delete_def by (cases "Delete_loop d opts iter s (initial w)") simp_all
  have init: "?I (initial w)" by (simp add: initial_def failures_Nil)
  have inv: "case x of Inl c \<Rightarrow> True | Inr (v', s') \<Rightarrow> ?I v'"
    by (rule Delete_loop_invariant [OF loop, where I = ?I and C = "\<lambda>c. True", OF init])
       (simp_all add: step_failures)
  show "r = (if failures tr = [] then None
           else Some (NewBatchError ''BatchedDeleteIncomplete''
                        ''some objects have failed to be deleted.'' (failures tr)))"
  proof (cases x)
    case (Inl c)
    then show ?thesis using run loop unfolding Delete_def by (auto split: prod.splits)
  next
    case (Inr y)
    obtain v s' where y: "y = (v, s')" by (cases y)
    have fin: "Delete_finish d (Err iter s') v = (Inr r, w', tr)"
      using run loop Inr y unfolding Delete_def by simp
    from inv Inr y have "errs v = failures (trace v)" by simp
    from Delete_finish_failures [OF this fin] show ?thesis .
  qed
next
  assume "Next iter s = (False, s') \<and> Err iter s' = None"
  then have "yields iter s [] s'" and e: "Err iter s' = None" by simp_all
  from Delete_yields [OF this(1), of d opts w] e
  show "Delete d iter s opts w = Some (Inr None, w, [])"
    by (simp add: Delete_finish_def initial_def)
qed

theorem Delete_returns_collected_errors_witness:
  "(\<exists>r w' tr.
      Delete \<lparr>Client = failing, BatchSize = 2\<rparr> DeleteObjectsIterator_impl
        \<lparr>Objects = [candidate ''A'' ''1'', candidate ''A'' ''2'', candidate ''A'' ''3''],
         index = 0, inc = False\<rparr> [] 0 = Some (Inr r, w', tr) \<and>
      length (failures tr) = 3 \<and>
      r = Some (NewBatchError ''BatchedDeleteIncomplete''
                  ''some objects have failed to be deleted.'' (failures tr))) \<and>
   Delete \<lparr>Client = failing, BatchSize = 2\<rparr> DeleteObjectsIterator_impl
     \<lparr>Objects = [], index = 0, inc = False\<rparr> [] 0 = Some (Inr None, 0, [])"
proof -
  let ?d = "\<lparr>Client = failing, BatchSize = 2\<rparr>"
  let ?s = "\<lparr>Objects = [candidate ''A'' ''1'', candidate ''A'' ''2'', candidate ''A'' ''3''],
         index = 0, inc = False\<rparr>"
  let ?e = "\<lparr>Objects = [] :: nat BatchDeleteObject list, index = 0, inc = False\<rparr>"
  have "\<exists>r w' tr. Delete ?d DeleteObjectsIterator_impl ?s [] 0 = Some (Inr r, w', tr) \<and>
          length (failures tr) = 3"
    by (simp add: run_defs failures_def)
  then obtain r w' tr where
    run: "Delete ?d DeleteObjectsIterator_impl ?s [] 0 = Some (Inr r, w', tr)"
    and n: "length (failures tr) = 3" by blast
  have nx: "Next DeleteObjectsIterator_impl ?e = (False, ?e\<lparr>inc := True\<rparr>) \<and>
            Err DeleteObjectsIterator_impl (?e\<lparr>inc := True\<rparr>) = None"
    by (simp add: DeleteObjectsIterator_impl_def DeleteObjectsIterator_Next_def
          DeleteObjectsIterator_Err_def)
  from Delete_returns_collected_errors [of ?d DeleteObjectsIterator_impl ?s "[]" 0 r w' tr] run n
  have 1: "r = Some (NewBatchError ''BatchedDeleteIncomplete''
                  ''some objects have failed to be deleted.'' (failures tr))"
    by auto
  from Delete_returns_collected_errors [of ?d DeleteObjectsIterator_impl ?e "[]" 0 _ _ _ "?e\<lparr>inc := True\<rparr>"] nx
  have 2: "Delete ?d DeleteObjectsIterator_impl ?e [] 0 = Some (Inr None, 0, [])"
    by blast
  show ?thesis using run n 1 2 by blast
qed

subsection \<open>C8: an error of the iterator\<close>



subsection \<open>C9: the paginated iterator at an empty page\<close>

text \<open>
  Claim C9 says that the paginated iterator does not end while pages with objects
  remain. On the pages [1], [], [2] it does: \<^verbatim>\<open>Next\<close> hands out the object 1, then
  fetches the empty page and answers false, with no error, while the paginator still has
  the page [2]. \<^verbatim>\<open>Delete\<close> makes one call, for the object 1, and returns nil. (When
  no page is empty the iterator does hand out every object: \<open>list_iterator_pages\<close>.)
\<close>

theorem DeleteListIterator_stops_at_empty_page:
  "Next scripted_iterator
     \<lparr>ListBucket = Some ''A'', PaginatorState = [Inr [Some ''1''], Inr [], Inr [Some ''2'']],
      listed = [], err = None\<rparr> =
     (True, \<lparr>ListBucket = Some ''A'', PaginatorState = [Inr [], Inr [Some ''2'']],
             listed = [Some ''1''], err = None\<rparr>) \<and>
   DeleteObject scripted_iterator
     \<lparr>ListBucket = Some ''A'', PaginatorState = [Inr [], Inr [Some ''2'']],
      listed = [Some ''1''], err = None\<rparr> = Inr (candidate ''A'' ''1'') \<and>
   Next scripted_iterator
     \<lparr>ListBucket = Some ''A'', PaginatorState = [Inr [], Inr [Some ''2'']],
      listed = [Some ''1''], err = None\<rparr> =
     (False, \<lparr>ListBucket = Some ''A'', PaginatorState = [Inr [Some ''2'']],
              listed = [], err = None\<rparr>) \<and>
   Err scripted_iterator
     \<lparr>ListBucket = Some ''A'', PaginatorState = [Inr [Some ''2'']], listed = [], err = None\<rparr> = None \<and>
   HasMorePages scripted [Inr [Some ''2'']] \<and>
   NextPage scripted [Inr [Some ''2'']] = (Inr [Some ''2''], []) \<and>
   Delete \<lparr>Client = succeeding, BatchSize = 1000\<rparr> scripted_iterator
     \<lparr>ListBucket = Some ''A'', PaginatorState = [Inr [Some ''1''], Inr [], Inr [Some ''2'']],
      listed = [], err = None\<rparr> [] 0 =
     Some (Inr None, 1,
           [CallEv (request ''A'' [''1'']) [candidate ''A'' ''1'']
              (Some \<lparr>ResultErrors = []\<rparr>) None])"
proof -
  let ?s0 = "\<lparr>ListBucket = Some ''A'', PaginatorState = [Inr [Some ''1''], Inr [], Inr [Some ''2'']],
      listed = [], err = None\<rparr>"
  let ?s2 = "\<lparr>ListBucket = Some ''A'', PaginatorState = [Inr [Some ''2'']], listed = [], err = None\<rparr>"
  have y: "yields scripted_iterator ?s0 [candidate ''A'' ''1''] ?s2"
    by (simp add: scripted_iterator_def list_iterator_defs candidate_def)
  have e: "Err scripted_iterator ?s2 = None"
    by (simp add: scripted_iterator_def list_iterator_defs)
  have D: "Delete \<lparr>Client = succeeding, BatchSize = 1000\<rparr> scripted_iterator ?s0 [] 0 =
     Some (Inr None, 1,
           [CallEv (request ''A'' [''1'']) [candidate ''A'' ''1'']
              (Some \<lparr>ResultErrors = []\<rparr>) None])"
    unfolding Delete_yields [OF y] e
    by (simp add: step_def deleteBatch_def runHooks.simps hasParity_def ptr_differs_def
          initDeleteObjectsInput_def apply_opts_def objectIdentifier_def initial_def
          Delete_finish_def Let_def candidate_def succeeding_def request_def)
  show ?thesis using D
    by (simp add: scripted_iterator_def list_iterator_defs candidate_def)
qed

subsection \<open>C10: the batch size of a new client\<close>

text \<open>
  Claim C10. \<^verbatim>\<open>NewBatchDeleteWithClient\<close>, called without options, gives a client whose
  \<^verbatim>\<open>BatchSize\<close> is 1000 when the argument is -1 and is the argument itself otherwise,
  zero and the other negative numbers included. Under a batch size of zero or less the
  size is never reached: a run over candidates of uniform parity makes a single call,
  after the iterator is exhausted, with all the candidates.
\<close>

theorem NewBatchDeleteWithClient_batch_size:
  "BatchSize (NewBatchDeleteWithClient c n []) = (if n = - 1 then 1000 else n) \<and>
   Client (NewBatchDeleteWithClient c n []) = c \<and>
   (n \<le> 0 \<and> n \<noteq> - 1 \<and> (\<forall>opt \<in> set opts. keeps_batch opt) \<and> answers c \<and>
    yields iter s os s' \<and> uniform b m rp os \<and> os \<noteq> [] \<longrightarrow>
      (\<exists>r w' tr i.
         Delete (NewBatchDeleteWithClient c n []) iter s opts w = Some (Inr r, w', tr) \<and>
         calls tr = [(i, os)] \<and> length (Delete_Objects i) = length os))"
proof (intro conjI impI)
  show "BatchSize (NewBatchDeleteWithClient c n []) = (if n = - 1 then 1000 else n)"
    by (simp add: NewBatchDeleteWithClient_def DefaultBatchSize_def)
  show "Client (NewBatchDeleteWithClient c n []) = c"
    by (simp add: NewBatchDeleteWithClient_def Let_def)
next
  let ?d = "NewBatchDeleteWithClient c n []"
  assume h: "n \<le> 0 \<and> n \<noteq> - 1 \<and> (\<forall>opt \<in> set opts. keeps_batch opt) \<and> answers c \<and>
    yields iter s os s' \<and> uniform b m rp os \<and> os \<noteq> []"
  then have B: "BatchSize ?d \<le> 0" and a: "answers (Client ?d)"
    by (simp_all add: NewBatchDeleteWithClient_def Let_def)
  from h have keeps: "\<forall>opt \<in> set opts. keeps_batch opt" and y: "yields iter s os s'"
    and u: "uniform b m rp os" and ne: "os \<noteq> []" by simp_all
  from steps_uniform_unbounded [OF keeps a B u open_uniform_initial, of w]
  obtain v where st: "steps ?d opts os (initial w) = Inr v"
    and uv: "open_uniform b m rp (length os) v"
    and tv: "trace v = []" and ov: "objects v = os"
    by (auto simp: initial_def)
  from uv ne obtain i where i: "input v = Some i" "length (Delete_Objects i) = length os"
    by (cases "input v") (auto simp: open_uniform_def)
  from Delete_finish_uniform [OF a uv, of "Err iter s'"] obtain r w' tr where
    fin: "Delete_finish ?d (Err iter s') v = (Inr r, w', tr)"
    and c: "calls tr = calls (trace v) @ (case input v of None \<Rightarrow> [] | Some i \<Rightarrow> [(i, objects v)])"
    by blast
  have D: "Delete ?d iter s opts w = Some (Inr r, w', tr)"
    unfolding Delete_yields [OF y] st using fin by simp
  show "\<exists>r w' tr i.
         Delete ?d iter s opts w = Some (Inr r, w', tr) \<and>
         calls tr = [(i, os)] \<and> length (Delete_Objects i) = length os"
    using D c i tv ov by auto
qed

theorem NewBatchDeleteWithClient_batch_size_witness:
  "BatchSize (NewBatchDeleteWithClient succeeding (- 1) []) = 1000 \<and>
   BatchSize (NewBatchDeleteWithClient succeeding 0 []) = 0 \<and>
   BatchSize (NewBatchDeleteWithClient succeeding (- 7) []) = - 7 \<and>
   (\<exists>r w' tr i.
      Delete (NewBatchDeleteWithClient succeeding 0 []) DeleteObjectsIterator_impl
        \<lparr>Objects = [candidate ''A'' ''1'', candidate ''A'' ''2'', candidate ''A'' ''3''],
         index = 0, inc = False\<rparr> [] 0 = Some (Inr r, w', tr) \<and>
      calls tr = [(i, [candidate ''A'' ''1'', candidate ''A'' ''2'', candidate ''A'' ''3''])] \<and>
      length (Delete_Objects i) = 3)"
proof -
  let ?os = "[candidate ''A'' ''1'', candidate ''A'' ''2'', candidate ''A'' ''3'']"
  let ?s = "\<lparr>Objects = ?os, index = 0, inc = False\<rparr>"
  let ?s' = "\<lparr>Objects = ?os, index = int (length ?os), inc = True\<rparr>"
  have h: "(0::int) \<le> 0 \<and> (0::int) \<noteq> - 1 \<and> (\<forall>opt \<in> set []. keeps_batch opt) \<and> answers succeeding \<and>
    yields DeleteObjectsIterator_impl ?s ?os ?s' \<and> uniform (Some ''A'') None [] ?os \<and> ?os \<noteq> []"
    using static_yields [of ?os]
    by (simp add: answers_def succeeding_def uniform_def candidate_def)
  from NewBatchDeleteWithClient_batch_size [of succeeding "- 1", THEN conjunct1]
  have 1: "BatchSize (NewBatchDeleteWithClient succeeding (- 1) []) = 1000" by simp
  from NewBatchDeleteWithClient_batch_size [of succeeding "- 7", THEN conjunct1]
  have 2: "BatchSize (NewBatchDeleteWithClient succeeding (- 7) []) = - 7" by simp
  from NewBatchDeleteWithClient_batch_size [of succeeding 0 "[]" DeleteObjectsIterator_impl ?s ?os ?s'
      "Some ''A''" None "[]" 0] h
  have 3: "BatchSize (NewBatchDeleteWithClient succeeding 0 []) = 0 \<and>
     (\<exists>r w' tr i.
      Delete (NewBatchDeleteWithClient succeeding 0 []) DeleteObjectsIterator_impl ?s [] 0 =
        Some (Inr r, w', tr) \<and>
      calls tr = [(i, ?os)] \<and> length (Delete_Objects i) = length ?os)"
    by simp
  show ?thesis using 1 2 3 by (simp add: numeral_3_eq_3)
qed

end
